theory Spec2Isabelle
  imports Complex_Main "HOL-Library.Word" "HOL-Library.Multiset" "HOL-Library.Log_Nat"
begin

unbundle bit_operations_syntax

section \<open>Default hashing (hashmap.h, lines 944-1013)\<close>

text \<open>
  \<open>uint32_t\<close> is \<open>32 word\<close>: \<open>*\<close> wraps modulo \<open>2^32\<close> as in C. \<open>size_t\<close> values
  (capacities, counts, indices, probe distances) are natural numbers: they are bounded
  by the size of the allocated slot array, so the additions on them do not wrap.
\<close>

type_synonym uint32_t = "32 word"

text \<open>
  \<open>hash_str_key\<close>: the loop \<open>for (i = 0; key[i]; i++)\<close> over the bytes of the
  string. The list holds the bytes before the terminating NUL; as in C, the loop also
  stops at a zero byte inside the list.
\<close>

fun hash_str_key_loop :: "uint32_t \<Rightarrow> string \<Rightarrow> uint32_t" where
  "hash_str_key_loop hash [] = hash"
| "hash_str_key_loop hash (c # cs) =
     (if of_char c = (0::nat) then hash
      else hash_str_key_loop ((hash XOR of_char c) * 16777619) cs)"

definition hash_str_key :: "string \<Rightarrow> uint32_t" where
  "hash_str_key key = hash_str_key_loop 2166136261 key"

definition hash_char_key :: "char \<Rightarrow> uint32_t" where
  "hash_char_key c = (2166136261 XOR of_char c) * 16777619"

definition hash_int :: "uint32_t \<Rightarrow> uint32_t" where
  "hash_int x0 =
     (let x1 = x0 XOR drop_bit 16 x0;
          x2 = x1 * 0x85ebca6b;
          x3 = x2 XOR drop_bit 13 x2;
          x4 = x3 * 0xc2b2ae35
      in x4 XOR drop_bit 16 x4)"

text \<open>
  \<open>hash_probe_distance\<close>: \<open>(index + capacity - (hash % capacity)) % capacity\<close>. The
  subtraction never goes below zero, since \<open>hash % capacity < capacity\<close> when
  \<open>capacity > 0\<close>; every caller has already computed \<open>hash % capacity\<close> with the same
  capacity, so the division by zero is caught there.
\<close>

definition hash_probe_distance :: "uint32_t \<Rightarrow> nat \<Rightarrow> nat \<Rightarrow> nat" where
  "hash_probe_distance hash index capacity =
     (index + capacity - (unat hash mod capacity)) mod capacity"

section \<open>The typed table generated by \<open>DEFINE_HASHMAP(K, V, NAME)\<close> (hashmap.h, lines 1033-1241)\<close>

text \<open>
  The macro generates the table type and its functions for a key type \<open>K\<close> and a value
  type \<open>V\<close>. (library.h is the older table with untyped \<open>void *\<close> keys and values; its
  functions run the same loops, but its \<open>insert\<close> always asks for twice the capacity.)
  The status \<open>__FLUENT_LIBC_HASHMAP_EMPTY\<close> is written without its leading underscores.
\<close>

datatype hash_entry_status_t = FLUENT_LIBC_HASHMAP_EMPTY | OCCUPIED | TOMBSTONE

text \<open>
  \<open>hash_NAME_entry_t\<close>. The key type \<open>K\<close> and the value type \<open>V\<close> are the type
  parameters \<open>'k\<close> and \<open>'v\<close>; the zero value of each (what \<open>calloc\<close> leaves in a slot
  and what \<open>(K){0}\<close> denotes) is the \<open>0\<close> of class \<open>zero\<close>.
\<close>

record ('k, 'v) hash_entry_t =
  key :: 'k
  value' :: 'v
  status :: hash_entry_status_t
  hash :: uint32_t

text \<open>
  \<open>hashmap_NAME_t\<close>. \<open>grow_factor\<close> is a \<open>double\<close> in C; the field of the model holds a
  rational number, and the one computation on it (\<open>grown_capacity\<close> below) rounds as
  \<open>double\<close> arithmetic does. \<open>hash_fn\<close> returns the hash as it is
  stored in the \<open>uint32_t\<close> local, \<open>cmp_fn\<close> returns a C truth value (non-zero: the keys
  are equal). The \<open>destructor\<close> pointer is left out: it is only copied by \<open>resize\<close> and
  called by \<open>free\<close> with a \<open>const\<close> table, and cannot change a slot array.

  A table of the model is the struct behind a non-null pointer, so the guards
  \<open>if (!map) return ...\<close> that open the C functions are never taken and are not part of
  the model.
\<close>

record ('k, 'v) hashmap_t =
  entries :: "('k, 'v) hash_entry_t list"
  capacity :: nat
  count :: nat
  grow_factor :: rat
  hash_fn :: "'k \<Rightarrow> uint32_t"
  cmp_fn :: "'k \<Rightarrow> 'k \<Rightarrow> int"

subsection \<open>Allocation\<close>

text \<open>
  \<open>malloc\<close> and \<open>calloc\<close> may fail. The allocator is the list of the outcomes of the
  coming requests, in order (\<open>False\<close>: the request returns \<open>NULL\<close>); when the list is
  used up every further request succeeds.
\<close>

type_synonym allocator = "bool list"

fun alloc :: "allocator \<Rightarrow> bool \<times> allocator" where
  "alloc [] = (True, [])"
| "alloc (ok # a) = (ok, a)"

text \<open>A slot as \<open>calloc\<close> returns it: every field zero, so its status is empty.\<close>

definition zero_entry :: "('k::zero, 'v::zero) hash_entry_t" where
  "zero_entry = \<lparr>key = 0, value' = 0, status = FLUENT_LIBC_HASHMAP_EMPTY, hash = 0\<rparr>"

text \<open>
  \<open>hashmap_NAME_init\<close> on the fresh struct of \<open>hashmap_NAME_new\<close>: \<open>None\<close> is the
  return value 0. The caller passes the hash function that the table will use (C
  substitutes \<open>hash_str_key\<close> for a null \<open>hash_fn\<close>, which is typed only for string
  keys).
\<close>

definition hashmap_init ::
  "allocator \<Rightarrow> nat \<Rightarrow> rat \<Rightarrow> ('k \<Rightarrow> uint32_t) \<Rightarrow> ('k \<Rightarrow> 'k \<Rightarrow> int)
     \<Rightarrow> allocator \<times> ('k::zero, 'v::zero) hashmap_t option" where
  "hashmap_init a capacity' grow_factor' hash_fn' cmp_fn' =
     (case alloc a of
        (False, a') \<Rightarrow> (a', None)
      | (True, a') \<Rightarrow>
          (a', Some \<lparr>entries = replicate capacity' zero_entry, capacity = capacity',
                     count = 0, grow_factor = grow_factor', hash_fn = hash_fn',
                     cmp_fn = cmp_fn'\<rparr>))"

definition hashmap_new ::
  "allocator \<Rightarrow> nat \<Rightarrow> rat \<Rightarrow> ('k \<Rightarrow> uint32_t) \<Rightarrow> ('k \<Rightarrow> 'k \<Rightarrow> int)
     \<Rightarrow> allocator \<times> ('k::zero, 'v::zero) hashmap_t option" where
  "hashmap_new a capacity' grow_factor' hash_fn' cmp_fn' =
     (case alloc a of
        (False, a') \<Rightarrow> (a', None)
      | (True, a') \<Rightarrow> hashmap_init a' capacity' grow_factor' hash_fn' cmp_fn')"

subsection \<open>Lookup\<close>

text \<open>
  The \<open>while\<close> loop of \<open>hashmap_NAME_get\<close>. It may run forever (a slot array with no
  empty slot and no matching key), so it is a partial function: \<open>None\<close> is "does not
  return", \<open>Some None\<close> is the return value \<open>NULL\<close>, \<open>Some (Some v)\<close> a pointer to a
  slot's value \<open>v\<close>.
\<close>

partial_function (option) get_loop ::
  "('k, 'v) hashmap_t \<Rightarrow> 'k \<Rightarrow> uint32_t \<Rightarrow> nat \<Rightarrow> 'v option option" where
  "get_loop m k h index =
     (if status (entries m ! index) \<noteq> FLUENT_LIBC_HASHMAP_EMPTY then
        if status (entries m ! index) = OCCUPIED \<and> hash (entries m ! index) = h \<and>
           cmp_fn m (key (entries m ! index)) k \<noteq> 0
        then Some (Some (value' (entries m ! index)))
        else get_loop m k h ((index + 1) mod capacity m)
      else Some None)"

declare get_loop.simps [code]

text \<open>
  \<open>hashmap_NAME_get\<close>. \<open>hash % map->capacity\<close> with capacity 0 is a division by zero:
  undefined behaviour, no result.
\<close>

definition hashmap_get :: "('k, 'v) hashmap_t \<Rightarrow> 'k \<Rightarrow> 'v option option" where
  "hashmap_get m k =
     (let h = hash_fn m k in
      if capacity m = 0 then None
      else get_loop m k h (unat h mod capacity m))"

subsection \<open>Insertion and resizing\<close>

text \<open>
  The \<open>while (1)\<close> loop of \<open>hashmap_NAME_insert\<close>: Robin Hood placement of the carried
  entry \<open>new_entry\<close> (\<open>dist'\<close> is the local \<open>dist\<close>). It returns only by placing the
  entry; \<open>None\<close> is "does not return".
\<close>

partial_function (option) insert_loop ::
  "('k, 'v) hashmap_t \<Rightarrow> nat \<Rightarrow> nat \<Rightarrow> ('k, 'v) hash_entry_t \<Rightarrow> ('k, 'v) hashmap_t option" where
  "insert_loop m index dist' new_entry =
     (if status (entries m ! index) = FLUENT_LIBC_HASHMAP_EMPTY \<or>
         status (entries m ! index) = TOMBSTONE
      then Some (m\<lparr>entries := (entries m)[index := new_entry], count := count m + 1\<rparr>)
      else
        let existing_dist = hash_probe_distance (hash (entries m ! index)) index (capacity m) in
        if dist' > existing_dist
        then
          let temp = entries m ! index in
          insert_loop (m\<lparr>entries := (entries m)[index := new_entry]\<rparr>)
            ((index + 1) mod capacity m) (existing_dist + 1) temp
        else insert_loop m ((index + 1) mod capacity m) (dist' + 1) new_entry)"

declare insert_loop.simps [code]

text \<open>
  The new capacity that \<open>insert\<close> asks for is \<open>map->capacity * map->grow_factor\<close>, passed
  to the \<open>size_t\<close> parameter of \<open>resize\<close>. C converts the capacity to \<open>double\<close>,
  multiplies in \<open>double\<close> and converts the product to \<open>size_t\<close>. A \<open>double\<close> (IEEE 754
  binary64) carries 53 significant bits, and every conversion to it and every operation
  on it rounds the exact result to the nearest such number, a tie to the one whose last
  bit is even.

  \<open>pow2 p\<close> is \<open>2^p\<close> for an integer \<open>p\<close>, and \<open>binary_exponent x\<close> is the exponent \<open>e\<close>
  with \<open>2^e \<le> x < 2^(e+1)\<close> of a positive \<open>x\<close>. \<open>round_double x\<close> writes \<open>x\<close> as
  \<open>q * 2^(e-52)\<close>, so that \<open>2^52 \<le> |q| < 2^53\<close>, and rounds \<open>q\<close> to the nearest integer, a
  tie to the even one. The exponent is not bounded: a \<open>double\<close> overflows above about
  \<open>1.8 * 10^308\<close> and loses bits below \<open>2^-1022\<close>, magnitudes that no capacity reaches
  (below 1 the conversion to \<open>size_t\<close> gives 0 either way).
\<close>

definition pow2 :: "int \<Rightarrow> rat" where
  "pow2 p = (if 0 \<le> p then 2 ^ nat p else 1 / 2 ^ nat (- p))"

definition binary_exponent :: "rat \<Rightarrow> int" where
  "binary_exponent x =
     (if 1 \<le> x then bitlen \<lfloor>x\<rfloor> - 1 else - bitlen (\<lceil>1 / x\<rceil> - 1))"

definition round_half_even :: "rat \<Rightarrow> int" where
  "round_half_even q =
     (let f = \<lfloor>q\<rfloor>; r = q - of_int f
      in if r < 1 / 2 then f else if 1 / 2 < r then f + 1 else if even f then f else f + 1)"

definition round_double :: "rat \<Rightarrow> rat" where
  "round_double x =
     (if x = 0 then 0
      else
        let p = binary_exponent \<bar>x\<bar> - 52
        in sgn x * of_int (round_half_even (\<bar>x\<bar> / pow2 p)) * pow2 p)"

text \<open>
  The conversion of a \<open>double\<close> to \<open>size_t\<close> drops the fraction. C leaves the
  conversion undefined when the result is not a \<open>size_t\<close> value (a \<open>double\<close> of -1 or
  less, or of \<open>2^64\<close> or more); the model gives 0 for the first and the whole part for
  the second.
\<close>

definition double_to_size_t :: "rat \<Rightarrow> nat" where
  "double_to_size_t x = nat \<lfloor>x\<rfloor>"

text \<open>
  The capacity \<open>insert\<close> asks for. The factor is rounded too: the field holds a
  \<open>double\<close>, so a rational such as \<open>6 / 5\<close> stands for the \<open>double\<close> that C stores for
  \<open>1.2\<close>; a value that is a \<open>double\<close> is left as it is by the rounding.
\<close>

definition grown_capacity :: "('k, 'v) hashmap_t \<Rightarrow> nat" where
  "grown_capacity m =
     double_to_size_t
       (round_double (round_double (of_nat (capacity m)) * round_double (grow_factor m)))"

text \<open>
  The test \<open>map->count + 1 > map->capacity * 0.9\<close>. \<open>over_load_double\<close> is the test as C
  computes it: both sides as \<open>double\<close>s, 0.9 as the \<open>double\<close> stored for it, the
  product rounded. \<open>over_load\<close>, which the model of \<open>insert\<close> uses, is the test in exact
  arithmetic; the two have the same outcome for every capacity below \<open>2^49\<close> (lemma
  \<open>over_load_double_exact\<close> below).
\<close>

definition over_load_double :: "('k, 'v) hashmap_t \<Rightarrow> bool" where
  "over_load_double m =
     (round_double (of_nat (count m + 1))
        > round_double (round_double (of_nat (capacity m)) * round_double (9 / 10)))"

definition over_load :: "('k, 'v) hashmap_t \<Rightarrow> bool" where
  "over_load m = (10 * (count m + 1) > 9 * capacity m)"

text \<open>
  \<open>hashmap_NAME_insert\<close> and \<open>hashmap_NAME_resize\<close> call each other: \<open>insert\<close> resizes
  a loaded table, \<open>resize\<close> inserts every occupied slot into the new table. The first
  argument bounds the depth of these calls (\<open>None\<close> at depth 0: no result within the
  bound); \<open>None\<close> is also the result when the placement loop does not return or the
  capacity is 0 at \<open>hash % map->capacity\<close>. A result \<open>Some (a, r, m)\<close> is the
  allocator after the call, the return value (\<open>True\<close> for 1, \<open>False\<close> for 0) and the
  table after the call. \<open>resize_loop\<close> is the \<open>for\<close> loop of \<open>resize\<close> over the old
  slots that are still to be visited.
\<close>

fun hashmap_insert ::
    "nat \<Rightarrow> allocator \<Rightarrow> ('k::zero, 'v::zero) hashmap_t \<Rightarrow> 'k \<Rightarrow> 'v
       \<Rightarrow> (allocator \<times> bool \<times> ('k, 'v) hashmap_t) option"
  and hashmap_resize ::
    "nat \<Rightarrow> allocator \<Rightarrow> ('k::zero, 'v::zero) hashmap_t \<Rightarrow> nat
       \<Rightarrow> (allocator \<times> bool \<times> ('k, 'v) hashmap_t) option"
  and resize_loop ::
    "nat \<Rightarrow> allocator \<Rightarrow> ('k::zero, 'v::zero) hash_entry_t list \<Rightarrow> ('k, 'v) hashmap_t
       \<Rightarrow> (allocator \<times> bool \<times> ('k, 'v) hashmap_t) option"
where
  "hashmap_insert 0 a m k v = None"
| "hashmap_insert (Suc depth) a m k v =
     (case (if over_load m then hashmap_resize depth a m (grown_capacity m)
            else Some (a, True, m)) of
        None \<Rightarrow> None
      | Some (a', False, m') \<Rightarrow> Some (a', False, m')
      | Some (a', True, m') \<Rightarrow>
          (let h = hash_fn m' k in
           if capacity m' = 0 then None
           else
             case insert_loop m' (unat h mod capacity m') 0
                    \<lparr>key = k, value' = v, status = OCCUPIED, hash = h\<rparr> of
               None \<Rightarrow> None
             | Some m'' \<Rightarrow> Some (a', True, m'')))"
| "hashmap_resize depth a m new_capacity =
     (case hashmap_new a new_capacity (grow_factor m) (hash_fn m) (cmp_fn m) of
        (a', None) \<Rightarrow> Some (a', False, m)
      | (a', Some new_map) \<Rightarrow>
          (case resize_loop depth a' (map (\<lambda>i. entries m ! i) [0..<capacity m]) new_map of
             None \<Rightarrow> None
           | Some (a'', False, new_map') \<Rightarrow> Some (a'', False, m)
           | Some (a'', True, new_map') \<Rightarrow>
               Some (a'', True, m\<lparr>entries := entries new_map', capacity := capacity new_map',
                                   count := count new_map'\<rparr>)))"
| "resize_loop depth a [] new_map = Some (a, True, new_map)"
| "resize_loop depth a (e # es) new_map =
     (if status e = OCCUPIED
      then
        case hashmap_insert depth a new_map (key e) (value' e) of
          None \<Rightarrow> None
        | Some (a', False, new_map') \<Rightarrow> Some (a', False, new_map')
        | Some (a', True, new_map') \<Rightarrow> resize_loop depth a' es new_map'
      else resize_loop depth a es new_map)"

subsection \<open>Removal\<close>

text \<open>
  The \<open>while\<close> loop of \<open>hashmap_NAME_remove\<close>: the scan of \<open>get\<close>, which turns the
  first matching slot into a tombstone. \<open>map->count--\<close> is on \<open>size_t\<close>: at 0 it wraps
  to \<open>SIZE_MAX\<close>.
\<close>

definition SIZE_MAX :: nat where
  "SIZE_MAX = 2 ^ 64 - 1"

partial_function (option) remove_loop ::
  "('k::zero, 'v) hashmap_t \<Rightarrow> 'k \<Rightarrow> uint32_t \<Rightarrow> nat \<Rightarrow> (bool \<times> ('k, 'v) hashmap_t) option" where
  "remove_loop m k h index =
     (if status (entries m ! index) \<noteq> FLUENT_LIBC_HASHMAP_EMPTY then
        if status (entries m ! index) = OCCUPIED \<and> hash (entries m ! index) = h \<and>
           cmp_fn m (key (entries m ! index)) k \<noteq> 0
        then Some (True,
               m\<lparr>entries := (entries m)[index := (entries m ! index)\<lparr>key := 0, status := TOMBSTONE\<rparr>],
                 count := (if count m = 0 then SIZE_MAX else count m - 1)\<rparr>)
        else remove_loop m k h ((index + 1) mod capacity m)
      else Some (False, m))"

declare remove_loop.simps [code]

definition hashmap_remove ::
  "('k::zero, 'v) hashmap_t \<Rightarrow> 'k \<Rightarrow> (bool \<times> ('k, 'v) hashmap_t) option" where
  "hashmap_remove m k =
     (let h = hash_fn m k in
      if capacity m = 0 then None
      else remove_loop m k h (unat h mod capacity m))"

subsection \<open>Iteration\<close>

record ('k, 'v) hashmap_iter_t =
  map' :: "('k, 'v) hashmap_t"
  index :: nat

definition hashmap_iter_begin :: "('k, 'v) hashmap_t \<Rightarrow> ('k, 'v) hashmap_iter_t" where
  "hashmap_iter_begin m = \<lparr>map' = m, index = 0\<rparr>"

text \<open>
  \<open>hashmap_NAME_iter_next\<close>: the returned pointer \<open>&map->entries[i]\<close> is the slot
  number \<open>i\<close>; \<open>None\<close> is \<open>NULL\<close>. The iterator is updated in place, so the function
  returns it as well.
\<close>

function hashmap_iter_next ::
  "('k, 'v) hashmap_iter_t \<Rightarrow> nat option \<times> ('k, 'v) hashmap_iter_t" where
  "hashmap_iter_next iter =
     (if index iter < capacity (map' iter) then
        let entry = index iter; iter' = iter\<lparr>index := index iter + 1\<rparr> in
        if status (entries (map' iter) ! entry) = OCCUPIED then (Some entry, iter')
        else hashmap_iter_next iter'
      else (None, iter))"
  by pat_completeness auto
termination
  by (relation "measure (\<lambda>iter. capacity (map' iter) - index iter)") auto

declare hashmap_iter_next.simps [simp del]

section \<open>Vocabulary of the properties\<close>

text \<open>
  The definitions of this section are not in the source: they name what the properties
  below talk about (the occupied slots of a slot array, the invariant of a table, a
  sequence of insertions, a drive of the iterator).
\<close>

definition occupied :: "('k, 'v) hash_entry_t list \<Rightarrow> ('k, 'v) hash_entry_t list" where
  "occupied es = filter (\<lambda>e. status e = OCCUPIED) es"

text \<open>The multiset of the (key, value) pairs held by the occupied slots of a table.\<close>

definition pairs :: "('k, 'v) hashmap_t \<Rightarrow> ('k \<times> 'v) multiset" where
  "pairs m = image_mset (\<lambda>e. (key e, value' e)) (mset (occupied (entries m)))"

text \<open>
  \<open>chain es h i\<close>: every slot that lies between the home slot of the hash \<open>h\<close> and
  the slot \<open>i\<close> (the slots with a smaller probe distance than \<open>i\<close>) is not empty, so a
  scan that starts at the home slot reaches \<open>i\<close>. \<open>probe_ok\<close>: this holds for every
  occupied slot and its cached hash.
\<close>

definition chain :: "('k, 'v) hash_entry_t list \<Rightarrow> uint32_t \<Rightarrow> nat \<Rightarrow> bool" where
  "chain es h i =
     (\<forall>j<length es. hash_probe_distance h j (length es) < hash_probe_distance h i (length es)
        \<longrightarrow> status (es ! j) \<noteq> FLUENT_LIBC_HASHMAP_EMPTY)"

definition probe_ok :: "('k, 'v) hash_entry_t list \<Rightarrow> bool" where
  "probe_ok es = (\<forall>p<length es. status (es ! p) = OCCUPIED \<longrightarrow> chain es (hash (es ! p)) p)"

text \<open>
  The invariant of a table: \<open>capacity\<close> is the length of the slot array, \<open>count\<close> the
  number of occupied slots, every occupied slot is reachable from its home slot, and its
  cached hash is the hash of its key.
\<close>

definition table_ok :: "('k, 'v) hashmap_t \<Rightarrow> bool" where
  "table_ok m =
     (capacity m = length (entries m) \<and> count m = length (occupied (entries m)) \<and>
      probe_ok (entries m) \<and>
      (\<forall>e\<in>set (occupied (entries m)). hash e = hash_fn m (key e)))"

definition same_config :: "('k, 'v) hashmap_t \<Rightarrow> ('k, 'v) hashmap_t \<Rightarrow> bool" where
  "same_config m m' =
     (grow_factor m' = grow_factor m \<and> hash_fn m' = hash_fn m \<and> cmp_fn m' = cmp_fn m)"

definition no_tombstone :: "('k, 'v) hashmap_t \<Rightarrow> bool" where
  "no_tombstone m = (\<forall>e\<in>set (entries m). status e \<noteq> TOMBSTONE)"

text \<open>The test of the scans of \<open>get\<close> and \<open>remove\<close>: slot \<open>i\<close> holds the key \<open>k\<close> with hash \<open>h\<close>.\<close>

definition matches :: "('k, 'v) hashmap_t \<Rightarrow> 'k \<Rightarrow> uint32_t \<Rightarrow> nat \<Rightarrow> bool" where
  "matches m k h i =
     (status (entries m ! i) = OCCUPIED \<and> hash (entries m ! i) = h \<and>
      cmp_fn m (key (entries m ! i)) k \<noteq> 0)"

text \<open>The table after \<open>remove\<close> has turned slot \<open>p\<close> into a tombstone.\<close>

definition tombstoned :: "('k::zero, 'v) hashmap_t \<Rightarrow> nat \<Rightarrow> ('k, 'v) hashmap_t" where
  "tombstoned m p =
     m\<lparr>entries := (entries m)[p := (entries m ! p)\<lparr>key := 0, status := TOMBSTONE\<rparr>],
       count := (if count m = 0 then SIZE_MAX else count m - 1)\<rparr>"

text \<open>
  A sequence of \<open>insert\<close> calls, one per (key, value) pair, that stops at the first call
  that returns 0.
\<close>

fun insert_all ::
  "nat \<Rightarrow> allocator \<Rightarrow> ('k::zero, 'v::zero) hashmap_t \<Rightarrow> ('k \<times> 'v) list
     \<Rightarrow> (allocator \<times> bool \<times> ('k, 'v) hashmap_t) option" where
  "insert_all depth a m [] = Some (a, True, m)"
| "insert_all depth a m ((k, v) # kvs) =
     (case hashmap_insert depth a m k v of
        None \<Rightarrow> None
      | Some (a', False, m') \<Rightarrow> Some (a', False, m')
      | Some (a', True, m') \<Rightarrow> insert_all depth a' m' kvs)"

text \<open>
  A sequence of \<open>insert\<close> and \<open>remove\<close> calls that stops at the first call that
  returns 0.
\<close>

datatype ('k, 'v) call = Insert 'k 'v | Remove 'k

fun run_calls ::
  "nat \<Rightarrow> allocator \<Rightarrow> ('k::zero, 'v::zero) hashmap_t \<Rightarrow> ('k, 'v) call list
     \<Rightarrow> (allocator \<times> bool \<times> ('k, 'v) hashmap_t) option" where
  "run_calls depth a m [] = Some (a, True, m)"
| "run_calls depth a m (Insert k v # cs) =
     (case hashmap_insert depth a m k v of
        None \<Rightarrow> None
      | Some (a', False, m') \<Rightarrow> Some (a', False, m')
      | Some (a', True, m') \<Rightarrow> run_calls depth a' m' cs)"
| "run_calls depth a m (Remove k # cs) =
     (case hashmap_remove m k of
        None \<Rightarrow> None
      | Some (False, m') \<Rightarrow> Some (a, False, m')
      | Some (True, m') \<Rightarrow> run_calls depth a m' cs)"

text \<open>A call of \<open>insert\<close> or \<open>resize\<close> returned, and returned 1.\<close>

fun succeeded :: "(allocator \<times> bool \<times> ('k, 'v) hashmap_t) option \<Rightarrow> bool" where
  "succeeded None = False"
| "succeeded (Some (a, r, m)) = r"

text \<open>
  Driving an iterator: \<open>iter_next\<close> is called until it returns \<open>NULL\<close>; the result is
  the list of the slots it returned, in order, and the iterator after the last call.
  \<open>None\<close> is "the drive does not end".
\<close>

partial_function (option) iter_collect ::
  "('k, 'v) hashmap_iter_t \<Rightarrow> (nat list \<times> ('k, 'v) hashmap_iter_t) option" where
  "iter_collect iter =
     (case hashmap_iter_next iter of
        (None, iter') \<Rightarrow> Some ([], iter')
      | (Some entry, iter') \<Rightarrow>
          Option.bind (iter_collect iter') (\<lambda>(rest, final). Some (entry # rest, final)))"

declare iter_collect.simps [code]

subsection \<open>Example tables\<close>

text \<open>
  Tables from \<open>DEFINE_HASHMAP(uint32_t, int, NAME)\<close> with \<open>hash_int\<close> as the hash
  function and \<open>==\<close> as the comparison. \<open>hash_int\<close> sends the keys 1, 2, 3 to the home
  slots 3, 2, 3 of a table of capacity 4.
\<close>

definition cmp_uint32 :: "uint32_t \<Rightarrow> uint32_t \<Rightarrow> int" where
  "cmp_uint32 a b = (if a = b then 1 else 0)"

definition demo_table :: "nat \<Rightarrow> rat \<Rightarrow> (uint32_t, int) hashmap_t" where
  "demo_table c g =
     \<lparr>entries = replicate c zero_entry, capacity = c, count = 0, grow_factor = g,
      hash_fn = hash_int, cmp_fn = cmp_uint32\<rparr>"

definition demo_entry :: "uint32_t \<Rightarrow> int \<Rightarrow> (uint32_t, int) hash_entry_t" where
  "demo_entry k v = \<lparr>key = k, value' = v, status = OCCUPIED, hash = hash_int k\<rparr>"

text \<open>The table of capacity 4 after the insertion of 1.\<close>

definition demo_one :: "(uint32_t, int) hashmap_t" where
  "demo_one =
     \<lparr>entries = [zero_entry, zero_entry, zero_entry, demo_entry 1 10],
      capacity = 4, count = 1, grow_factor = 2, hash_fn = hash_int, cmp_fn = cmp_uint32\<rparr>"

text \<open>The table of capacity 4 after the insertion of 1, 2 and 3.\<close>

definition demo_three :: "(uint32_t, int) hashmap_t" where
  "demo_three =
     \<lparr>entries = [demo_entry 3 30, zero_entry, demo_entry 2 20, demo_entry 1 10],
      capacity = 4, count = 3, grow_factor = 2, hash_fn = hash_int, cmp_fn = cmp_uint32\<rparr>"

text \<open>\<open>demo_one\<close> after \<open>resize\<close> to the capacity 1.\<close>

definition demo_one_resized :: "(uint32_t, int) hashmap_t" where
  "demo_one_resized =
     \<lparr>entries = [zero_entry, demo_entry 1 10],
      capacity = 2, count = 1, grow_factor = 2, hash_fn = hash_int, cmp_fn = cmp_uint32\<rparr>"

text \<open>A table of capacity 1 and growth factor 1.5 after the insertion of 1.\<close>

definition demo_full :: "(uint32_t, int) hashmap_t" where
  "demo_full =
     \<lparr>entries = [demo_entry 1 10],
      capacity = 1, count = 1, grow_factor = 3 / 2, hash_fn = hash_int, cmp_fn = cmp_uint32\<rparr>"

text \<open>
  A table of capacity 5 and growth factor 1.2 after the insertion of 1, 2, 3 and 4 (home
  slots 2, 3, 2 and 3), after its \<open>resize\<close> to the capacity 6 (home slots 1, 4, 1 and
  5), and after the insertion of 5, which asks for that resize.
\<close>

definition demo_four :: "(uint32_t, int) hashmap_t" where
  "demo_four =
     \<lparr>entries = [demo_entry 4 40, zero_entry, demo_entry 1 10, demo_entry 3 30, demo_entry 2 20],
      capacity = 5, count = 4, grow_factor = 6 / 5, hash_fn = hash_int, cmp_fn = cmp_uint32\<rparr>"

definition demo_four_resized :: "(uint32_t, int) hashmap_t" where
  "demo_four_resized =
     \<lparr>entries = [zero_entry, demo_entry 1 10, demo_entry 3 30, zero_entry, demo_entry 2 20,
                 demo_entry 4 40],
      capacity = 6, count = 4, grow_factor = 6 / 5, hash_fn = hash_int, cmp_fn = cmp_uint32\<rparr>"

definition demo_five :: "(uint32_t, int) hashmap_t" where
  "demo_five =
     \<lparr>entries = [zero_entry, demo_entry 1 10, demo_entry 3 30, demo_entry 5 50,
                 demo_entry 2 20, demo_entry 4 40],
      capacity = 6, count = 5, grow_factor = 6 / 5, hash_fn = hash_int, cmp_fn = cmp_uint32\<rparr>"

text \<open>The table of capacity 4 after the key 1 was inserted twice, and after \<open>remove\<close> of 1.\<close>

definition demo_twice :: "(uint32_t, int) hashmap_t" where
  "demo_twice =
     \<lparr>entries = [demo_entry 1 20, zero_entry, zero_entry, demo_entry 1 10],
      capacity = 4, count = 2, grow_factor = 2, hash_fn = hash_int, cmp_fn = cmp_uint32\<rparr>"

definition demo_twice_removed :: "(uint32_t, int) hashmap_t" where
  "demo_twice_removed =
     \<lparr>entries = [demo_entry 1 20, zero_entry, zero_entry,
                 (demo_entry 1 10)\<lparr>key := 0, status := TOMBSTONE\<rparr>],
      capacity = 4, count = 1, grow_factor = 2, hash_fn = hash_int, cmp_fn = cmp_uint32\<rparr>"

text \<open>
  The table of capacity 4 after 6, 4, 2 and 1 (home slots 0, 1, 2 and 3) were each
  inserted and removed: every slot is a tombstone.
\<close>

definition demo_tombstones :: "(uint32_t, int) hashmap_t" where
  "demo_tombstones =
     \<lparr>entries = [(demo_entry 6 60)\<lparr>key := 0, status := TOMBSTONE\<rparr>,
                 (demo_entry 4 40)\<lparr>key := 0, status := TOMBSTONE\<rparr>,
                 (demo_entry 2 20)\<lparr>key := 0, status := TOMBSTONE\<rparr>,
                 (demo_entry 1 10)\<lparr>key := 0, status := TOMBSTONE\<rparr>],
      capacity = 4, count = 0, grow_factor = 2, hash_fn = hash_int, cmp_fn = cmp_uint32\<rparr>"

section \<open>Lemmas\<close>

subsection \<open>Rounding to \<open>double\<close>\<close>

lemma pow2_pos: "0 < pow2 p" by (simp add: pow2_def)

lemma pow2_Suc: "pow2 (p + 1) = 2 * pow2 p"
proof (cases "0 \<le> p")
  case True
  then show ?thesis by (simp add: pow2_def nat_add_distrib)
next
  case False
  then have "nat (- p) = Suc (nat (- (p + 1)))" by simp
  with False show ?thesis by (simp add: pow2_def)
qed

lemma pow2_add_nat: "pow2 (p + int n) = 2 ^ n * pow2 p"
proof (induction n)
  case 0
  show ?case by simp
next
  case (Suc n)
  have "p + int (Suc n) = (p + int n) + 1" by simp
  then have "pow2 (p + int (Suc n)) = pow2 ((p + int n) + 1)" by (rule arg_cong)
  also have "\<dots> = 2 * pow2 (p + int n)" by (rule pow2_Suc)
  finally show ?case using Suc by simp
qed

lemma of_int_le_power2: "n \<le> 2 ^ k \<Longrightarrow> (of_int n :: rat) \<le> 2 ^ k"
  by (metis of_int_le_iff of_int_numeral of_int_power)

lemma power2_le_of_int: "2 ^ k \<le> n \<Longrightarrow> (2 :: rat) ^ k \<le> of_int n"
  by (metis of_int_le_iff of_int_numeral of_int_power)

lemma binary_exponent_bounds:
  assumes "0 < x"
  shows "pow2 (binary_exponent x) \<le> x \<and> x < pow2 (binary_exponent x + 1)"
proof (cases "1 \<le> x")
  case True
  define n where "n = \<lfloor>x\<rfloor>"
  have n: "0 < n" "of_int n \<le> x" "x < of_int n + 1"
    using True unfolding n_def by linarith+
  from bitlen_bounds [OF n(1)] have b: "2 ^ nat (bitlen n - 1) \<le> n" "n < 2 ^ nat (bitlen n)"
    by simp_all
  have pos: "1 \<le> bitlen n" using n(1) bitlen_nonneg [of n] bitlen_eq_zero_iff [of n] by linarith
  have e: "binary_exponent x = bitlen n - 1" using True by (simp add: binary_exponent_def n_def)
  have "(2::rat) ^ nat (bitlen n - 1) \<le> of_int n" using b(1) by (rule power2_le_of_int)
  then have "(2::rat) ^ nat (bitlen n - 1) \<le> x" using n(2) by (rule order_trans)
  moreover have "pow2 (bitlen n - 1) = 2 ^ nat (bitlen n - 1)" using pos by (simp add: pow2_def)
  ultimately have lo: "pow2 (binary_exponent x) \<le> x" unfolding e by simp
  have "n + 1 \<le> 2 ^ nat (bitlen n)" using b(2) by simp
  then have "(of_int (n + 1) :: rat) \<le> 2 ^ nat (bitlen n)" by (rule of_int_le_power2)
  then have "x < 2 ^ nat (bitlen n)" using n(3) by simp
  then have hi: "x < pow2 (binary_exponent x + 1)" using pos unfolding e by (simp add: pow2_def)
  from lo hi show ?thesis ..
next
  case False
  define y where "y = 1 / x"
  define n where "n = \<lceil>y\<rceil>"
  define k where "k = bitlen (n - 1)"
  have y: "1 < y" using False assms by (simp add: y_def)
  have n: "y \<le> of_int n" "of_int n - 1 < y" by (simp_all add: n_def) linarith
  from y n(1) have "1 < (of_int n :: rat)" by linarith
  then have n1: "0 < n - 1" by simp
  from bitlen_bounds [OF n1] have b: "2 ^ nat (k - 1) \<le> n - 1" "n - 1 < 2 ^ nat k"
    by (simp_all add: k_def)
  have pos: "1 \<le> k" using n1 bitlen_nonneg [of "n - 1"] bitlen_eq_zero_iff [of "n - 1"]
    unfolding k_def by linarith
  have e: "binary_exponent x = - k" using False by (simp add: binary_exponent_def n_def y_def k_def)
  have "n \<le> 2 ^ nat k" using b(2) by simp
  then have "(of_int n :: rat) \<le> 2 ^ nat k" by (rule of_int_le_power2)
  with n(1) have "y \<le> 2 ^ nat k" by (rule order_trans)
  then have "1 \<le> 2 ^ nat k * x" using assms by (simp add: y_def field_simps)
  then have lo: "pow2 (binary_exponent x) \<le> x" using pos unfolding e
    by (simp add: pow2_def field_simps)
  have "(2 :: rat) ^ nat (k - 1) \<le> of_int (n - 1)" using b(1) by (rule power2_le_of_int)
  with n(2) have "2 ^ nat (k - 1) < y" by simp
  then have lt: "2 ^ nat (k - 1) * x < 1" using assms by (simp add: y_def field_simps)
  have hi: "x < pow2 (binary_exponent x + 1)"
  proof (cases "k = 1")
    case True
    with lt show ?thesis unfolding e by (simp add: pow2_def)
  next
    case False
    with pos have "- k + 1 < 0" "nat (- (- k + 1)) = nat (k - 1)" by simp_all
    with lt show ?thesis unfolding e by (simp add: pow2_def field_simps)
  qed
  from lo hi show ?thesis ..
qed

lemma round_half_even_error: "\<bar>of_int (round_half_even q) - q\<bar> \<le> 1 / 2"
proof -
  have "of_int \<lfloor>q\<rfloor> \<le> q" "q < of_int \<lfloor>q\<rfloor> + 1" by linarith+
  then show ?thesis unfolding round_half_even_def Let_def
    by (cases "q - of_int \<lfloor>q\<rfloor> < 1 / 2"; cases "1 / 2 < q - of_int \<lfloor>q\<rfloor>"; simp add: abs_if; linarith)
qed

lemma round_half_even_of_int: "round_half_even (of_int z) = z"
  by (simp add: round_half_even_def)

lemma round_double_error:
  assumes "0 < x"
  shows "\<bar>round_double x - x\<bar> \<le> x / 2 ^ 53"
proof -
  define p where "p = binary_exponent x - 52"
  define q where "q = x / pow2 p"
  note pp = pow2_pos [of p]
  have rd: "round_double x = of_int (round_half_even q) * pow2 p"
    using assms by (simp add: round_double_def p_def q_def Let_def)
  have x: "x = q * pow2 p" using pp by (simp add: q_def)
  have "round_double x - q * pow2 p = (of_int (round_half_even q) - q) * pow2 p"
    unfolding rd by (simp add: algebra_simps)
  with x have "round_double x - x = (of_int (round_half_even q) - q) * pow2 p" by simp
  then have "\<bar>round_double x - x\<bar> = \<bar>of_int (round_half_even q) - q\<bar> * pow2 p"
    using pp by (simp add: abs_mult)
  also have "\<dots> \<le> 1 / 2 * pow2 p"
    using round_half_even_error [of q] pp by (intro mult_right_mono) simp_all
  finally have 1: "\<bar>round_double x - x\<bar> \<le> pow2 p / 2" by simp
  have "pow2 (p + int 52) = 2 ^ 52 * pow2 p" by (rule pow2_add_nat)
  moreover have "p + int 52 = binary_exponent x" by (simp add: p_def)
  ultimately have "2 ^ 52 * pow2 p \<le> x" using binary_exponent_bounds [OF assms] by simp
  then have "pow2 p / 2 \<le> x / 2 ^ 53" by simp
  with 1 show ?thesis by linarith
qed

lemma round_double_of_nat:
  assumes "c < 2 ^ 53"
  shows "round_double (of_nat c) = of_nat c"
proof (cases "c = 0")
  case True
  then show ?thesis by (simp add: round_double_def)
next
  case False
  define x :: rat where "x = of_nat c"
  define p where "p = binary_exponent x - 52"
  have x0: "0 < x" using False by (simp add: x_def)
  note pp = pow2_pos [of p]
  from binary_exponent_bounds [OF x0] have lo: "pow2 (binary_exponent x) \<le> x" by simp
  have "x < 2 ^ 53" using assms unfolding x_def
    by (metis of_nat_less_iff of_nat_numeral of_nat_power)
  have p0: "p \<le> 0"
  proof (rule ccontr)
    assume "\<not> p \<le> 0"
    then have "53 \<le> binary_exponent x" by (simp add: p_def)
    then obtain j where j: "binary_exponent x = 53 + int j"
      by (metis nonneg_int_cases diff_ge_0_iff_ge add.commute diff_add_cancel)
    have "pow2 (53 + int j) = 2 ^ j * pow2 53" by (rule pow2_add_nat)
    moreover have "pow2 53 = 2 ^ 53" by (simp add: pow2_def)
    moreover have "(1::rat) \<le> 2 ^ j" by simp
    ultimately have "(2::rat) ^ 53 \<le> pow2 (binary_exponent x)" 
      unfolding j
      by (metis mult_le_cancel_right1 zero_less_numeral zero_less_power less_le_not_le)
    with lo \<open>x < 2 ^ 53\<close> show False by linarith
  qed
  then obtain j where j: "p = - int j" by (metis nonneg_int_cases neg_0_le_iff_le minus_minus)
  have pw: "pow2 p = 1 / 2 ^ j"
  proof (cases "j = 0")
    case True then show ?thesis by (simp add: j pow2_def)
  next
    case False then show ?thesis by (simp add: j pow2_def)
  qed
  have q: "x / pow2 p = of_int (int c * 2 ^ j)" by (simp add: pw x_def)
  have "round_double x = of_int (round_half_even (x / pow2 p)) * pow2 p"
    using x0 by (simp add: round_double_def p_def Let_def)
  also have "\<dots> = of_int (int c * 2 ^ j) * pow2 p" unfolding q round_half_even_of_int ..
  also have "\<dots> = x" by (simp add: pw x_def)
  finally show ?thesis by (simp add: x_def)
qed

lemma round_double_nonneg: "0 \<le> x \<Longrightarrow> 0 \<le> round_double x"
proof -
  assume x: "0 \<le> x"
  show ?thesis
  proof (cases "x = 0")
    case True then show ?thesis by (simp add: round_double_def)
  next
    case False
    with x have "0 < x" by simp
    from round_double_error [OF this] have "x - x / 2 ^ 53 \<le> round_double x" by linarith
    moreover have "0 \<le> x - x / 2 ^ 53" using x by (simp add: field_simps)
    ultimately show ?thesis by linarith
  qed
qed

lemma round_double_error':
  assumes "0 \<le> x"
  shows "\<bar>round_double x - x\<bar> \<le> x / 2 ^ 53"
proof (cases "x = 0")
  case True
  then show ?thesis by (simp add: round_double_def)
next
  case False
  with assms have "0 < x" by simp
  then show ?thesis by (rule round_double_error)
qed

lemma floor_le_round_half_even: "\<lfloor>q\<rfloor> \<le> round_half_even q"
  by (simp add: round_half_even_def Let_def)

lemma round_double_pos_eq:
  "0 < x \<Longrightarrow> round_double x =
     of_int (round_half_even (x / pow2 (binary_exponent x - 52))) * pow2 (binary_exponent x - 52)"
  by (simp add: round_double_def Let_def)

lemma round_double_ge_nat:
  assumes n: "n < 2 ^ 53" and le: "of_nat n \<le> x"
  shows "of_nat n \<le> round_double x"
proof (cases "n = 0")
  case True
  with le round_double_nonneg [of x] show ?thesis by simp
next
  case False
  then have n0: "(0::rat) < of_nat n" by simp
  with le have x0: "0 < x" by linarith
  define p where "p = binary_exponent x - 52"
  define q where "q = x / pow2 p"
  note pp = pow2_pos [of p]
  have rd: "round_double x = of_int (round_half_even q) * pow2 p"
    unfolding q_def p_def using x0 by (rule round_double_pos_eq)
  have fl: "of_int \<lfloor>q\<rfloor> * pow2 p \<le> round_double x"
    unfolding rd using floor_le_round_half_even [of q] pp by simp
  show ?thesis
  proof (cases "p \<le> 0")
    case True
    then obtain j where j: "p = - int j" by (metis nonneg_int_cases neg_0_le_iff_le minus_minus)
    have pw: "pow2 p = 1 / 2 ^ j" by (cases "j = 0") (simp_all add: j pow2_def)
    have "of_nat n * 2 ^ j \<le> q" using le by (simp add: q_def pw)
    then have "of_int (int n * 2 ^ j) \<le> q" by simp
    then have "int n * 2 ^ j \<le> \<lfloor>q\<rfloor>" by (simp only: le_floor_iff)
    then have "(of_int (int n * 2 ^ j) :: rat) \<le> of_int \<lfloor>q\<rfloor>" by (simp only: of_int_le_iff)
    then have "of_int (int n * 2 ^ j) * pow2 p \<le> of_int \<lfloor>q\<rfloor> * pow2 p"
      using pp by (intro mult_right_mono) simp_all
    moreover have "of_int (int n * 2 ^ j) * pow2 p = (of_nat n :: rat)" by (simp add: pw)
    ultimately show ?thesis using fl by linarith
  next
    case False
    then have e53: "53 \<le> binary_exponent x" by (simp add: p_def)
    define j where "j = nat (binary_exponent x - 53)"
    have j: "binary_exponent x = 53 + int j" using e53 by (simp add: j_def)
    have "pow2 (53 + int j) = 2 ^ j * pow2 53" by (rule pow2_add_nat)
    moreover have "pow2 53 = 2 ^ 53" by (simp add: pow2_def)
    moreover have "(1::rat) \<le> 2 ^ j" by simp
    ultimately have big: "(2::rat) ^ 53 \<le> pow2 (binary_exponent x)"
      unfolding j by simp
    have "pow2 (p + int 52) = 2 ^ 52 * pow2 p" by (rule pow2_add_nat)
    moreover have "p + int 52 = binary_exponent x" by (simp add: p_def)
    ultimately have e: "pow2 (binary_exponent x) = 2 ^ 52 * pow2 p" by simp
    have "pow2 (binary_exponent x) \<le> x" using binary_exponent_bounds [OF x0] by simp
    then have "2 ^ 52 \<le> q" unfolding e q_def using pp by (simp add: field_simps)
    then have "(2::int) ^ 52 \<le> \<lfloor>q\<rfloor>" by (simp add: le_floor_iff)
    then have "(2::rat) ^ 52 \<le> of_int \<lfloor>q\<rfloor>" by (rule power2_le_of_int)
    then have "2 ^ 52 * pow2 p \<le> of_int \<lfloor>q\<rfloor> * pow2 p"
      using pp by (intro mult_right_mono) simp_all
    with fl e big have "(2::rat) ^ 53 \<le> round_double x" by linarith
    moreover have "(of_nat n :: rat) < 2 ^ 53" using n
      by (metis of_nat_less_iff of_nat_numeral of_nat_power)
    ultimately show ?thesis by linarith
  qed
qed


lemma round_double_nine_tenths:
  "round_double (9 / 10) = 8106479329266893 / 9007199254740992"
  by code_simp

lemma double_test_exact:
  assumes c: "c < 2 ^ 49" and n: "n < 2 ^ 53"
  shows "(round_double (round_double (of_nat c) * round_double (9 / 10)) < round_double (of_nat n))
           = (9 * c < 10 * n)"
proof -
  define C :: rat where "C = of_nat c"
  define N :: rat where "N = of_nat n"
  define P where "P = C * (8106479329266893 / 9007199254740992)"
  have "c < 2 ^ 53" using c by (rule less_trans) simp
  then have rc: "round_double (of_nat c) = C" unfolding C_def by (rule round_double_of_nat)
  have rn: "round_double (of_nat n) = N" unfolding N_def using n by (rule round_double_of_nat)
  have C0: "0 \<le> C" by (simp add: C_def)
  have Cb: "C < 562949953421312"
  proof -
    have "(of_nat c :: rat) < of_nat (2 ^ 49)" using c by (simp only: of_nat_less_iff)
    then show ?thesis by (simp add: C_def)
  qed
  have P0: "0 \<le> P" using C0 by (simp add: P_def)
  have lhs: "round_double (round_double (of_nat c) * round_double (9 / 10)) = round_double P"
    by (simp only: rc round_double_nine_tenths P_def)
  show ?thesis
  proof (cases "9 * c < 10 * n")
    case True
    then have "9 * c + 1 \<le> 10 * n" by simp
    then have "(of_nat (9 * c + 1) :: rat) \<le> of_nat (10 * n)" by (simp only: of_nat_le_iff)
    then have le: "9 * C + 1 \<le> 10 * N" by (simp add: C_def N_def)
    from round_double_error' [OF P0] have "round_double P \<le> P + P / 2 ^ 53" by linarith
    moreover have "P + P / 2 ^ 53 < N" using le Cb C0 unfolding P_def by simp
    ultimately have "round_double P < N" by linarith
    with True show ?thesis by (simp only: lhs rn)
  next
    case False
    then have "10 * n \<le> 9 * c" by simp
    then have "(of_nat (10 * n) :: rat) \<le> of_nat (9 * c)" by (simp only: of_nat_le_iff)
    then have "10 * N \<le> 9 * C" by (simp add: C_def N_def)
    then have "N \<le> P" using C0 unfolding P_def by simp
    then have "of_nat n \<le> P" by (simp add: N_def)
    from round_double_ge_nat [OF n this] have "\<not> round_double P < N" by (simp add: N_def)
    with False show ?thesis by (simp only: lhs rn)
  qed
qed

lemma over_load_double_exact:
  "capacity m < 2 ^ 49 \<Longrightarrow> count m + 1 < 2 ^ 53 \<Longrightarrow> over_load_double m = over_load m"
  unfolding over_load_double_def over_load_def by (rule double_test_exact)

lemma grown_capacity_bounds:
  assumes c: "capacity m < 2 ^ 53" and g: "0 \<le> grow_factor m"
  shows "of_nat (capacity m) * round_double (grow_factor m) * (1 - 1 / 2 ^ 53) - 1
           < of_nat (grown_capacity m) \<and>
         of_nat (grown_capacity m)
           \<le> of_nat (capacity m) * round_double (grow_factor m) * (1 + 1 / 2 ^ 53)"
proof -
  define x where "x = of_nat (capacity m) * round_double (grow_factor m)"
  have x0: "0 \<le> x" unfolding x_def using round_double_nonneg [OF g] by simp
  have rx: "0 \<le> round_double x" using x0 by (rule round_double_nonneg)
  have gc: "grown_capacity m = nat \<lfloor>round_double x\<rfloor>"
    by (simp add: grown_capacity_def double_to_size_t_def x_def round_double_of_nat [OF c])
  have "0 \<le> \<lfloor>round_double x\<rfloor>" using rx by simp
  then have t: "(of_nat (grown_capacity m) :: rat) = of_int \<lfloor>round_double x\<rfloor>"
    unfolding gc by simp
  have fl: "of_int \<lfloor>round_double x\<rfloor> \<le> round_double x"
    "round_double x - 1 < of_int \<lfloor>round_double x\<rfloor>" by linarith+
  from round_double_error' [OF x0]
  have e: "round_double x \<le> x + x / 2 ^ 53" "x - x / 2 ^ 53 \<le> round_double x" by linarith+
  have d: "x * (1 - 1 / 2 ^ 53) = x - x / 2 ^ 53" "x * (1 + 1 / 2 ^ 53) = x + x / 2 ^ 53"
    by (simp_all add: algebra_simps)
  have "x * (1 - 1 / 2 ^ 53) - 1 < of_nat (grown_capacity m)"
    unfolding t d using e(2) fl(2) by linarith
  moreover have "of_nat (grown_capacity m) \<le> x * (1 + 1 / 2 ^ 53)"
    unfolding t d using e(1) fl(1) by linarith
  ultimately show ?thesis unfolding x_def by simp
qed

subsection \<open>Probe distances\<close>

lemma cyclic_offset:
  fixes b i n :: nat
  assumes "b < n" "i < n"
  shows "(i + n - b) mod n = (if b \<le> i then i - b else i + n - b)"
proof (cases "b \<le> i")
  case True
  then have "i + n - b = (i - b) + n" by simp
  then have "(i + n - b) mod n = (i - b) mod n" by simp
  also have "\<dots> = i - b" using assms by simp
  finally show ?thesis using True by simp
next
  case False
  then have "i + n - b < n" using assms by simp
  then show ?thesis using False by simp
qed

lemma probe_distance_if:
  assumes "i < n"
  shows "hash_probe_distance h i n =
         (if unat h mod n \<le> i then i - unat h mod n else i + n - unat h mod n)"
proof -
  have "unat h mod n < n" using assms by simp
  then show ?thesis unfolding hash_probe_distance_def using assms by (rule cyclic_offset)
qed

lemma probe_distance_less: "i < n \<Longrightarrow> hash_probe_distance h i n < n"
  by (simp add: hash_probe_distance_def)

lemma probe_distance_home: "0 < n \<Longrightarrow> hash_probe_distance h (unat h mod n) n = 0"
  by (simp add: probe_distance_if)

lemma probe_distance_inj:
  assumes "i < n" "j < n" "hash_probe_distance h i n = hash_probe_distance h j n"
  shows "i = j"
proof -
  define b where "b = unat h mod n"
  have "b < n" using assms by (simp add: b_def)
  moreover have "(if b \<le> i then i - b else i + n - b) = (if b \<le> j then j - b else j + n - b)"
    using assms(3) unfolding probe_distance_if [OF assms(1)] probe_distance_if [OF assms(2)] b_def .
  ultimately show ?thesis using assms(1,2) by (simp split: if_splits)
qed

lemma probe_distance_next:
  assumes "i < n"
  shows "hash_probe_distance h (Suc i mod n) n =
         (if Suc (hash_probe_distance h i n) = n then 0 else Suc (hash_probe_distance h i n))"
proof -
  define b where "b = unat h mod n"
  have hn: "b < n" using assms by (simp add: b_def)
  have nx: "Suc i mod n = (if Suc i = n then 0 else Suc i)" using assms by (simp add: mod_if)
  have lt: "Suc i mod n < n" using assms by simp
  have "(if b \<le> Suc i mod n then Suc i mod n - b else Suc i mod n + n - b) =
        (if Suc (if b \<le> i then i - b else i + n - b) = n then 0
         else Suc (if b \<le> i then i - b else i + n - b))"
    unfolding nx using hn assms by (auto split: if_splits)
  then show ?thesis
    unfolding probe_distance_if [OF assms] probe_distance_if [OF lt] b_def .
qed



subsection \<open>Probe chains\<close>

lemma chain_update:
  assumes "chain es h i" "status x \<noteq> FLUENT_LIBC_HASHMAP_EMPTY"
  shows "chain (es[q := x]) h i"
proof (cases "q < length es")
  case True
  with assms show ?thesis by (simp add: chain_def nth_list_update)
next
  case False
  then have "es[q := x] = es" by (simp add: list_update_beyond)
  with assms show ?thesis by simp
qed

lemma chain_next:
  assumes "chain es h i" "i < length es" "status (es ! i) \<noteq> FLUENT_LIBC_HASHMAP_EMPTY"
  shows "chain es h (Suc i mod length es)"
  unfolding chain_def
proof (intro allI impI)
  fix j
  assume j: "j < length es"
    and lt: "hash_probe_distance h j (length es)
              < hash_probe_distance h (Suc i mod length es) (length es)"
  from lt have "hash_probe_distance h j (length es) \<le> hash_probe_distance h i (length es)"
    by (simp add: probe_distance_next [OF assms(2)] split: if_splits)
  then consider "hash_probe_distance h j (length es) < hash_probe_distance h i (length es)"
    | "hash_probe_distance h j (length es) = hash_probe_distance h i (length es)"
    by linarith
  then show "status (es ! j) \<noteq> FLUENT_LIBC_HASHMAP_EMPTY"
  proof cases
    case 1
    with assms(1) j show ?thesis by (simp add: chain_def)
  next
    case 2
    with j assms(2) have "j = i" by (rule probe_distance_inj)
    with assms(3) show ?thesis by simp
  qed
qed

lemma probe_ok_update:
  assumes "probe_ok es" "i < length es" "chain es (hash x) i"
    "status x \<noteq> FLUENT_LIBC_HASHMAP_EMPTY"
  shows "probe_ok (es[i := x])"
  unfolding probe_ok_def
proof (intro allI impI)
  fix p
  assume p: "p < length (es[i := x])" and occ: "status (es[i := x] ! p) = OCCUPIED"
  show "chain (es[i := x]) (hash (es[i := x] ! p)) p"
  proof (cases "p = i")
    case True
    with assms(2) have "es[i := x] ! p = x" by simp
    with True chain_update [OF assms(3,4)] show ?thesis by simp
  next
    case False
    then have eq: "es[i := x] ! p = es ! p" by simp
    with occ p assms(1) have "chain es (hash (es ! p)) p" by (simp add: probe_ok_def)
    from chain_update [OF this assms(4)] eq show ?thesis by simp
  qed
qed

subsection \<open>The placement loop\<close>

lemma Suc_mod_less: "i < n \<Longrightarrow> Suc i mod n < n"
  by simp

text \<open>
  Induction over a run of the placement loop that returns: the loop places the carried
  entry in a slot that is not occupied, or swaps it with the resident of an occupied slot
  and goes on, or keeps it and goes on.
\<close>

lemma insert_loop_induct [consumes 1, case_names place swap keep]:
  assumes run: "insert_loop m i d e = Some m'"
    and place: "\<And>m i d e. status (entries m ! i) \<noteq> OCCUPIED \<Longrightarrow>
        P m i d e (m\<lparr>entries := (entries m)[i := e], count := count m + 1\<rparr>)"
    and swap: "\<And>m i d e m'. status (entries m ! i) = OCCUPIED \<Longrightarrow>
        hash_probe_distance (hash (entries m ! i)) i (capacity m) < d \<Longrightarrow>
        P (m\<lparr>entries := (entries m)[i := e]\<rparr>) (Suc i mod capacity m)
          (Suc (hash_probe_distance (hash (entries m ! i)) i (capacity m))) (entries m ! i) m' \<Longrightarrow>
        P m i d e m'"
    and keep: "\<And>m i d e m'. status (entries m ! i) = OCCUPIED \<Longrightarrow>
        \<not> hash_probe_distance (hash (entries m ! i)) i (capacity m) < d \<Longrightarrow>
        P m (Suc i mod capacity m) (Suc d) e m' \<Longrightarrow> P m i d e m'"
  shows "P m i d e m'"
proof (rule insert_loop.raw_induct [where P = P, OF _ run])
  fix loop m i d e m'
  assume IH: "\<And>m i d e y. loop m i d e = Some y \<Longrightarrow> P m i d e y"
    and body: "(if status (entries m ! i) = FLUENT_LIBC_HASHMAP_EMPTY \<or>
         status (entries m ! i) = TOMBSTONE
      then Some (m\<lparr>entries := (entries m)[i := e], count := count m + 1\<rparr>)
      else
        let existing_dist = hash_probe_distance (hash (entries m ! i)) i (capacity m) in
        if d > existing_dist
        then
          let temp = entries m ! i in
          loop (m\<lparr>entries := (entries m)[i := e]\<rparr>)
            ((i + 1) mod capacity m) (existing_dist + 1) temp
        else loop m ((i + 1) mod capacity m) (d + 1) e) = Some m'"
  show "P m i d e m'"
  proof (cases "status (entries m ! i) = OCCUPIED")
    case False
    then have "status (entries m ! i) = FLUENT_LIBC_HASHMAP_EMPTY \<or>
         status (entries m ! i) = TOMBSTONE"
      by (cases "status (entries m ! i)") simp_all
    with body have "m' = m\<lparr>entries := (entries m)[i := e], count := count m + 1\<rparr>"
      by (simp split: if_splits)
    with place [OF False] show ?thesis by simp
  next
    case occ: True
    show ?thesis
    proof (cases "hash_probe_distance (hash (entries m ! i)) i (capacity m) < d")
      case True
      with occ body have "loop (m\<lparr>entries := (entries m)[i := e]\<rparr>) (Suc i mod capacity m)
          (Suc (hash_probe_distance (hash (entries m ! i)) i (capacity m))) (entries m ! i) = Some m'"
        by (simp add: Let_def)
      from swap [OF occ True IH [OF this]] show ?thesis .
    next
      case False
      with occ body have "loop m (Suc i mod capacity m) (Suc d) e = Some m'"
        by (simp add: Let_def)
      from keep [OF occ False IH [OF this]] show ?thesis .
    qed
  qed
qed

lemma insert_loop_fields:
  assumes "insert_loop m i d e = Some m'"
  shows "capacity m' = capacity m \<and> grow_factor m' = grow_factor m \<and> hash_fn m' = hash_fn m \<and>
     cmp_fn m' = cmp_fn m \<and> length (entries m') = length (entries m) \<and>
     count m' = count m + 1"
  using assms by (induction rule: insert_loop_induct) simp_all

lemma mset_occupied_update:
  assumes "i < length es"
  shows "mset (occupied (es[i := x])) =
         (if status x = OCCUPIED then {#x#} else {#}) +
         (mset (occupied es) - (if status (es ! i) = OCCUPIED then {#es ! i#} else {#}))"
  using assms by (simp add: occupied_def mset_update)

lemma insert_loop_occupied:
  assumes "insert_loop m i d e = Some m'" "capacity m = length (entries m)" "i < capacity m"
    "status e = OCCUPIED"
  shows "mset (occupied (entries m')) = add_mset e (mset (occupied (entries m)))"
  using assms
proof (induction rule: insert_loop_induct)
  case (place m i d e)
  then show ?case by (simp add: mset_occupied_update)
next
  case (swap m i d e m')
  have "entries m ! i \<in># mset (occupied (entries m))"
    using swap.hyps(1) swap.prems by (simp add: occupied_def)
  with swap show ?case by (simp add: mset_occupied_update Suc_mod_less)
next
  case (keep m i d e m')
  then show ?case by (simp add: Suc_mod_less)
qed

lemma insert_loop_set:
  assumes "insert_loop m i d e = Some m'" "capacity m = length (entries m)" "i < capacity m"
  shows "set (entries m') \<subseteq> insert e (set (entries m))"
  using assms
proof (induction rule: insert_loop_induct)
  case (place m i d e)
  then show ?case by (simp add: set_update_subset_insert)
next
  case (swap m i d e m')
  have "set ((entries m)[i := e]) \<subseteq> insert e (set (entries m))"
    by (rule set_update_subset_insert)
  moreover have "entries m ! i \<in> set (entries m)" using swap.prems by simp
  ultimately show ?case using swap by (auto simp: Suc_mod_less)
next
  case (keep m i d e m')
  then show ?case by (simp add: Suc_mod_less)
qed

lemma insert_loop_full:
  assumes "\<forall>j<capacity m. status (entries m ! j) = OCCUPIED" "status e = OCCUPIED"
    "capacity m = length (entries m)" "i < capacity m"
  shows "insert_loop m i d e = None"
proof (rule ccontr)
  assume "insert_loop m i d e \<noteq> None"
  then obtain m' where run: "insert_loop m i d e = Some m'" by auto
  from run assms show False
  proof (induction rule: insert_loop_induct)
    case (place m i d e)
    then show ?case by simp
  next
    case (swap m i d e m')
    have "\<forall>j<capacity m. status ((entries m)[i := e] ! j) = OCCUPIED"
      using swap.prems by (simp add: nth_list_update)
    with swap show ?case by (simp add: Suc_mod_less)
  next
    case (keep m i d e m')
    then show ?case by (simp add: Suc_mod_less)
  qed
qed

lemma insert_loop_probe_ok:
  assumes "insert_loop m i d e = Some m'" "capacity m = length (entries m)" "i < capacity m"
    "status e = OCCUPIED" "probe_ok (entries m)" "chain (entries m) (hash e) i"
  shows "probe_ok (entries m')"
  using assms
proof (induction rule: insert_loop_induct)
  case (place m i d e)
  then show ?case by (simp add: probe_ok_update)
next
  case (swap m i d e m')
  let ?es = "entries m"
  have ok: "probe_ok (?es[i := e])"
    using swap.prems by (simp add: probe_ok_update)
  have "chain ?es (hash (?es ! i)) i"
    using swap.prems swap.hyps(1) by (simp add: probe_ok_def)
  then have "chain ?es (hash (?es ! i)) (Suc i mod length ?es)"
    using swap.prems swap.hyps(1) by (intro chain_next) simp_all
  then have "chain (?es[i := e]) (hash (?es ! i)) (Suc i mod length ?es)"
    using swap.prems by (intro chain_update) simp_all
  with ok swap show ?case by (simp add: Suc_mod_less)
next
  case (keep m i d e m')
  have "chain (entries m) (hash e) (Suc i mod length (entries m))"
    using keep.prems keep.hyps(1) by (intro chain_next) simp_all
  with keep show ?case by (simp add: Suc_mod_less)
qed



text \<open>One step of the loop, and its termination when some slot is not occupied.\<close>

lemma insert_loop_free:
  "status (entries m ! i) \<noteq> OCCUPIED \<Longrightarrow>
   insert_loop m i d e = Some (m\<lparr>entries := (entries m)[i := e], count := count m + 1\<rparr>)"
  by (subst insert_loop.simps, cases "status (entries m ! i)") simp_all

lemma insert_loop_occupied_step:
  "status (entries m ! i) = OCCUPIED \<Longrightarrow>
   insert_loop m i d e =
     (if hash_probe_distance (hash (entries m ! i)) i (capacity m) < d
      then insert_loop (m\<lparr>entries := (entries m)[i := e]\<rparr>) (Suc i mod capacity m)
             (Suc (hash_probe_distance (hash (entries m ! i)) i (capacity m))) (entries m ! i)
      else insert_loop m (Suc i mod capacity m) (Suc d) e)"
  by (subst insert_loop.simps) (simp add: Let_def)

lemma insert_loop_returns:
  assumes "capacity m = length (entries m)" "i < capacity m"
    "status (entries m ! ((i + k) mod capacity m)) \<noteq> OCCUPIED"
  shows "\<exists>m'. insert_loop m i d e = Some m'"
  using assms
proof (induction k arbitrary: m i d e)
  case 0
  then show ?case by (simp add: insert_loop_free)
next
  case (Suc k)
  let ?n = "capacity m"
  let ?f = "(i + Suc k) mod ?n"
  show ?case
  proof (cases "status (entries m ! i) = OCCUPIED")
    case False
    then show ?thesis by (simp add: insert_loop_free)
  next
    case True
    have lt: "Suc i mod ?n < ?n" using Suc.prems(2) by (rule Suc_mod_less)
    have f: "(Suc i mod ?n + k) mod ?n = ?f" by (simp add: mod_add_left_eq)
    from True Suc.prems(3) have ne: "?f \<noteq> i" by auto
    show ?thesis
    proof (cases "hash_probe_distance (hash (entries m ! i)) i ?n < d")
      case sw: True
      let ?m = "m\<lparr>entries := (entries m)[i := e]\<rparr>"
      have "status (entries ?m ! ((Suc i mod capacity ?m + k) mod capacity ?m)) \<noteq> OCCUPIED"
        using Suc.prems ne f by simp
      moreover have "capacity ?m = length (entries ?m)" "Suc i mod ?n < capacity ?m"
        using Suc.prems lt by simp_all
      ultimately have "\<exists>m'. insert_loop ?m (Suc i mod ?n)
           (Suc (hash_probe_distance (hash (entries m ! i)) i ?n)) (entries m ! i) = Some m'"
        by (intro Suc.IH) simp_all
      with True sw show ?thesis by (simp add: insert_loop_occupied_step)
    next
      case False
      have "status (entries m ! ((Suc i mod ?n + k) mod ?n)) \<noteq> OCCUPIED"
        using Suc.prems f by simp
      with Suc.prems lt have "\<exists>m'. insert_loop m (Suc i mod ?n) (Suc d) e = Some m'"
        by (intro Suc.IH) simp_all
      with True False show ?thesis by (simp add: insert_loop_occupied_step)
    qed
  qed
qed

lemma cyclic_reach:
  fixes i j n :: nat
  assumes "i < n" "j < n"
  shows "(i + (j + n - i) mod n) mod n = j"
proof -
  have "(j + n - i) mod n = (if i \<le> j then j - i else j + n - i)"
    using assms by (rule cyclic_offset)
  then show ?thesis using assms by (simp split: if_splits)
qed



subsection \<open>The invariant through insertion and resizing\<close>

lemma hashmap_new_Some:
  assumes "hashmap_new a c g hf cf = (a', Some m)"
  shows "m = \<lparr>entries = replicate c zero_entry, capacity = c, count = 0, grow_factor = g,
              hash_fn = hf, cmp_fn = cf\<rparr>"
  using assms
  by (auto simp: hashmap_new_def hashmap_init_def split: prod.splits bool.splits)

lemma status_zero_entry [simp]: "status zero_entry = FLUENT_LIBC_HASHMAP_EMPTY"
  by (simp add: zero_entry_def)

lemma occupied_replicate_zero [simp]: "occupied (replicate c zero_entry) = []"
  by (simp add: occupied_def)

lemma fresh_table_ok:
  "table_ok \<lparr>entries = replicate c zero_entry, capacity = c, count = 0, grow_factor = g,
              hash_fn = hf, cmp_fn = cf\<rparr>"
  by (simp add: table_ok_def probe_ok_def)

lemma fresh_no_tombstone:
  "no_tombstone \<lparr>entries = replicate c zero_entry, capacity = c, count = 0, grow_factor = g,
              hash_fn = hf, cmp_fn = cf\<rparr>"
  by (simp add: no_tombstone_def)

lemma fresh_pairs:
  "pairs \<lparr>entries = replicate c zero_entry, capacity = c, count = 0, grow_factor = g,
              hash_fn = hf, cmp_fn = cf\<rparr> = {#}"
  by (simp add: pairs_def)

lemma chain_home: "0 < length es \<Longrightarrow> chain es h (unat h mod length es)"
  by (simp add: chain_def probe_distance_home)

lemma place_table_ok:
  assumes run: "insert_loop m (unat (hash_fn m k) mod capacity m) 0
                  \<lparr>key = k, value' = v, status = OCCUPIED, hash = hash_fn m k\<rparr> = Some m'"
    and ok: "table_ok m" and pos: "0 < capacity m"
  shows "table_ok m' \<and> same_config m m' \<and> capacity m' = capacity m \<and>
         pairs m' = add_mset (k, v) (pairs m) \<and> (no_tombstone m \<longrightarrow> no_tombstone m')"
proof -
  let ?e = "\<lparr>key = k, value' = v, status = OCCUPIED, hash = hash_fn m k\<rparr>"
  let ?i = "unat (hash_fn m k) mod capacity m"
  from ok have wf: "capacity m = length (entries m)" by (simp add: table_ok_def)
  have i: "?i < capacity m" using pos by simp
  note f = insert_loop_fields [OF run]
  have occ: "mset (occupied (entries m')) = add_mset ?e (mset (occupied (entries m)))"
    using run wf i by (rule insert_loop_occupied) simp
  have "chain (entries m) (hash ?e) ?i" using pos wf chain_home [of "entries m" "hash_fn m k"] by simp
  with run wf i have pr: "probe_ok (entries m')"
    using ok by (intro insert_loop_probe_ok [OF run]) (simp_all add: table_ok_def)
  from occ have "size (mset (occupied (entries m'))) = Suc (size (mset (occupied (entries m))))"
    by simp
  then have len: "length (occupied (entries m')) = Suc (length (occupied (entries m)))"
    by simp
  from occ have "set_mset (mset (occupied (entries m'))) = insert ?e (set_mset (mset (occupied (entries m))))"
    by simp
  then have st: "set (occupied (entries m')) = insert ?e (set (occupied (entries m)))"
    by simp
  have t1: "table_ok m'"
    using f wf ok len pr st by (simp add: table_ok_def)
  have t2: "pairs m' = add_mset (k, v) (pairs m)"
    by (simp add: pairs_def occ)
  have t3: "no_tombstone m \<longrightarrow> no_tombstone m'"
    using insert_loop_set [OF run wf i] by (auto simp: no_tombstone_def)
  from t1 t2 t3 f show ?thesis by (simp add: same_config_def)
qed

lemma map_nth_entries: "capacity m = length (entries m) \<Longrightarrow>
    map (\<lambda>i. entries m ! i) [0..<capacity m] = entries m"
  by (simp add: map_nth)

lemma insert_resize_ok:
  fixes m :: "('k::zero, 'v::zero) hashmap_t" and nm :: "('k, 'v) hashmap_t"
  shows "hashmap_insert d a m k v = Some (a', True, m') \<Longrightarrow> table_ok m \<Longrightarrow>
           table_ok m' \<and> same_config m m' \<and> pairs m' = add_mset (k, v) (pairs m) \<and>
           (no_tombstone m \<longrightarrow> no_tombstone m')"
    and "hashmap_resize d a m nc = Some (a', True, m') \<Longrightarrow> capacity m = length (entries m) \<Longrightarrow>
           table_ok m' \<and> same_config m m' \<and> pairs m' = pairs m \<and> no_tombstone m'"
    and "resize_loop d a es nm = Some (a', True, nm') \<Longrightarrow> table_ok nm \<Longrightarrow>
           table_ok nm' \<and> same_config nm nm' \<and>
           pairs nm' = pairs nm + image_mset (\<lambda>e. (key e, value' e)) (mset (occupied es)) \<and>
           (no_tombstone nm \<longrightarrow> no_tombstone nm')"
proof (induction d a m k v and d a m nc and d a es nm arbitrary: a' m' and a' m' and a' nm'
    rule: hashmap_insert_hashmap_resize_resize_loop.induct)
  case (1 a m k v)
  then show ?case by simp
next
  case (2 depth a m k v)
  show ?case
  proof (cases "over_load m")
    case True
    with "2.prems"(1) obtain a1 m1 where
      rs: "hashmap_resize depth a m (grown_capacity m) = Some (a1, True, m1)"
      and pl: "capacity m1 \<noteq> 0" "a' = a1"
        "insert_loop m1 (unat (hash_fn m1 k) mod capacity m1) 0
           \<lparr>key = k, value' = v, status = OCCUPIED, hash = hash_fn m1 k\<rparr> = Some m'"
      by (auto simp: Let_def split: option.splits bool.splits if_splits)
    from "2.prems"(2) have wf: "capacity m = length (entries m)" by (simp add: table_ok_def)
    from "2.IH" [OF True rs wf] have r: "table_ok m1" "same_config m m1" "pairs m1 = pairs m"
      "no_tombstone m1" by simp_all
    from place_table_ok [OF pl(3) r(1)] pl(1) r show ?thesis
      by (simp add: same_config_def)
  next
    case False
    with "2.prems"(1) have pl: "capacity m \<noteq> 0"
        "insert_loop m (unat (hash_fn m k) mod capacity m) 0
           \<lparr>key = k, value' = v, status = OCCUPIED, hash = hash_fn m k\<rparr> = Some m'"
      by (auto simp: Let_def split: option.splits bool.splits if_splits)
    from place_table_ok [OF pl(2) "2.prems"(2)] pl(1) show ?thesis by simp
  qed
next
  case (3 depth a m new_capacity)
  from "3.prems"(1) obtain a1 new_map new_map' where
    nw: "hashmap_new a new_capacity (grow_factor m) (hash_fn m) (cmp_fn m) = (a1, Some new_map)"
    and lp: "resize_loop depth a1 (map (\<lambda>i. entries m ! i) [0..<capacity m]) new_map
               = Some (a', True, new_map')"
    and m': "m' = m\<lparr>entries := entries new_map', capacity := capacity new_map',
                      count := count new_map'\<rparr>"
    by (auto split: prod.splits option.splits bool.splits)
  note fresh = hashmap_new_Some [OF nw]
  have ok0: "table_ok new_map" "pairs new_map = {#}" "no_tombstone new_map"
    "same_config m new_map"
    unfolding fresh by (simp_all add: fresh_table_ok fresh_pairs fresh_no_tombstone same_config_def)
  from "3.IH" [OF nw [symmetric] refl lp ok0(1)] ok0
  have r: "table_ok new_map'" "same_config new_map new_map'"
    "pairs new_map' = image_mset (\<lambda>e. (key e, value' e)) (mset (occupied (entries m)))"
    "no_tombstone new_map'"
    by (simp_all add: map_nth_entries [OF "3.prems"(2)])
  from r(1) have "table_ok m'" unfolding m' using r(2) ok0(4)
    by (simp add: table_ok_def same_config_def)
  moreover have "same_config m m'" unfolding m' by (simp add: same_config_def)
  moreover have "pairs m' = pairs m" unfolding m' using r(3) by (simp add: pairs_def)
  moreover have "no_tombstone m'" unfolding m' using r(4) by (simp add: no_tombstone_def)
  ultimately show ?case by simp
next
  case (4 depth a new_map)
  then show ?case by (simp add: same_config_def occupied_def)
next
  case (5 depth a e es new_map)
  show ?case
  proof (cases "status e = OCCUPIED")
    case True
    with "5.prems"(1) obtain a1 nm1 where
      ins: "hashmap_insert depth a new_map (key e) (value' e) = Some (a1, True, nm1)"
      and rest: "resize_loop depth a1 es nm1 = Some (a', True, nm')"
      by (auto split: option.splits bool.splits)
    from "5.IH"(1) [OF True ins "5.prems"(2)]
    have r1: "table_ok nm1" "same_config new_map nm1"
      "pairs nm1 = add_mset (key e, value' e) (pairs new_map)"
      "no_tombstone new_map \<longrightarrow> no_tombstone nm1" by simp_all
    from "5.IH"(2) [OF True ins refl refl refl rest r1(1)] r1 True show ?thesis
      by (simp add: same_config_def occupied_def)
  next
    case False
    with "5.prems"(1) have "resize_loop depth a es new_map = Some (a', True, nm')" by simp
    from "5.IH"(3) [OF False this "5.prems"(2)] False show ?thesis
      by (simp add: occupied_def)
  qed
qed



subsection \<open>Lookup\<close>

lemma get_loop_empty:
  "status (entries m ! i) = FLUENT_LIBC_HASHMAP_EMPTY \<Longrightarrow> get_loop m k h i = Some None"
  by (subst get_loop.simps) simp

lemma get_loop_match:
  "matches m k h i \<Longrightarrow> get_loop m k h i = Some (Some (value' (entries m ! i)))"
  by (subst get_loop.simps) (simp add: matches_def)

lemma get_loop_skip:
  "status (entries m ! i) \<noteq> FLUENT_LIBC_HASHMAP_EMPTY \<Longrightarrow> \<not> matches m k h i \<Longrightarrow>
   get_loop m k h i = get_loop m k h (Suc i mod capacity m)"
  by (subst get_loop.simps) (auto simp: matches_def)

lemma get_loop_finds:
  assumes wf: "capacity m = length (entries m)"
    and p: "p < capacity m" "matches m k h p" "chain (entries m) h p"
    and uniq: "\<forall>q<capacity m. matches m k h q \<longrightarrow> value' (entries m ! q) = v"
    and i: "i < capacity m"
      "hash_probe_distance h i (capacity m) \<le> hash_probe_distance h p (capacity m)"
  shows "get_loop m k h i = Some (Some v)"
  using i
proof (induction "hash_probe_distance h p (capacity m) - hash_probe_distance h i (capacity m)"
    arbitrary: i)
  case 0
  then have "hash_probe_distance h i (capacity m) = hash_probe_distance h p (capacity m)"
    by simp
  with "0.prems"(1) p(1) have "i = p" by (rule probe_distance_inj)
  with p(1,2) uniq show ?case by (simp add: get_loop_match)
next
  case (Suc x)
  let ?n = "capacity m"
  show ?case
  proof (cases "matches m k h i")
    case True
    with Suc.prems(1) uniq show ?thesis by (simp add: get_loop_match)
  next
    case False
    from Suc.hyps(2) have lt: "hash_probe_distance h i ?n < hash_probe_distance h p ?n"
      by simp
    with p(3) Suc.prems(1) wf have ne: "status (entries m ! i) \<noteq> FLUENT_LIBC_HASHMAP_EMPTY"
      by (simp add: chain_def)
    have "hash_probe_distance h p ?n < ?n" using p(1) by (rule probe_distance_less)
    with lt have nx: "hash_probe_distance h (Suc i mod ?n) ?n = Suc (hash_probe_distance h i ?n)"
      by (simp add: probe_distance_next [OF Suc.prems(1)])
    have "get_loop m k h (Suc i mod ?n) = Some (Some v)"
    proof (rule Suc.hyps(1))
      show "x = hash_probe_distance h p ?n - hash_probe_distance h (Suc i mod ?n) ?n"
        using Suc.hyps(2) nx by simp
      show "Suc i mod ?n < ?n" using Suc.prems(1) by (rule Suc_mod_less)
      show "hash_probe_distance h (Suc i mod ?n) ?n \<le> hash_probe_distance h p ?n"
        using lt nx by simp
    qed
    with ne False show ?thesis by (simp add: get_loop_skip)
  qed
qed

lemma hashmap_get_finds:
  assumes ok: "table_ok m"
    and p: "p < capacity m" "status (entries m ! p) = OCCUPIED"
      "cmp_fn m (key (entries m ! p)) k \<noteq> 0" "hash_fn m (key (entries m ! p)) = hash_fn m k"
    and uniq: "\<forall>q<capacity m. matches m k (hash_fn m k) q \<longrightarrow> value' (entries m ! q) = v"
  shows "hashmap_get m k = Some (Some v)"
proof -
  let ?h = "hash_fn m k"
  from ok have wf: "capacity m = length (entries m)" by (simp add: table_ok_def)
  have pos: "0 < capacity m" using p(1) by simp
  have mem: "entries m ! p \<in> set (occupied (entries m))"
    using p(1,2) wf by (simp add: occupied_def)
  with ok have hp: "hash (entries m ! p) = ?h" using p(4) by (simp add: table_ok_def)
  with p have mt: "matches m k ?h p" by (simp add: matches_def)
  from ok p(1,2) wf hp have ch: "chain (entries m) ?h p" by (auto simp: table_ok_def probe_ok_def)
  have "get_loop m k ?h (unat ?h mod capacity m) = Some (Some v)"
    using wf p(1) mt ch uniq
  proof (rule get_loop_finds)
    show "unat ?h mod capacity m < capacity m" using pos by simp
    show "hash_probe_distance ?h (unat ?h mod capacity m) (capacity m)
            \<le> hash_probe_distance ?h p (capacity m)"
      using pos by (simp add: probe_distance_home)
  qed
  with pos show ?thesis by (simp add: hashmap_get_def)
qed

lemma insert_all_ok:
  "insert_all d a m kvs = Some (a', True, m') \<Longrightarrow> table_ok m \<Longrightarrow>
     table_ok m' \<and> same_config m m' \<and> pairs m' = pairs m + mset kvs"
proof (induction kvs arbitrary: a m)
  case Nil
  then show ?case by (simp add: same_config_def)
next
  case (Cons kv kvs)
  obtain k v where kv: "kv = (k, v)" by (cases kv)
  with Cons.prems(1) obtain a1 m1 where
    ins: "hashmap_insert d a m k v = Some (a1, True, m1)"
    and rest: "insert_all d a1 m1 kvs = Some (a', True, m')"
    by (auto split: option.splits bool.splits)
  from insert_resize_ok(1) [OF ins Cons.prems(2)]
  have r: "table_ok m1" "same_config m m1" "pairs m1 = add_mset (k, v) (pairs m)" by simp_all
  from Cons.IH [OF rest r(1)] r kv show ?case by (simp add: same_config_def)
qed

lemma pairs_nth:
  assumes "capacity m = length (entries m)" "q < capacity m" "status (entries m ! q) = OCCUPIED"
  shows "(key (entries m ! q), value' (entries m ! q)) \<in># pairs m"
proof -
  have "entries m ! q \<in> set (occupied (entries m))" using assms by (simp add: occupied_def)
  then show ?thesis by (auto simp: pairs_def)
qed

lemma pairs_slot:
  assumes "capacity m = length (entries m)" "(k, v) \<in># pairs m"
  shows "\<exists>p<capacity m. status (entries m ! p) = OCCUPIED \<and> key (entries m ! p) = k \<and>
           value' (entries m ! p) = v"
proof -
  from assms(2) obtain e where e: "e \<in> set (occupied (entries m))" "key e = k" "value' e = v"
    by (auto simp: pairs_def)
  then have "e \<in> set (entries m)" "status e = OCCUPIED" by (simp_all add: occupied_def)
  then obtain p where "p < length (entries m)" "entries m ! p = e" by (auto simp: in_set_conv_nth)
  with e \<open>status e = OCCUPIED\<close> assms(1) show ?thesis by auto
qed

subsection \<open>Resizing\<close>

lemma resize_failure_same:
  "hashmap_resize d a m nc = Some (a', False, m') \<Longrightarrow> m' = m"
  by (auto split: prod.splits option.splits bool.splits)

lemma insert_failure_same:
  "hashmap_insert d a m k v = Some (a', False, m') \<Longrightarrow> m' = m"
proof (cases d)
  case 0
  assume "hashmap_insert d a m k v = Some (a', False, m')"
  with 0 show ?thesis by simp
next
  case (Suc n)
  assume "hashmap_insert d a m k v = Some (a', False, m')"
  with Suc have "over_load m" "hashmap_resize n a m (grown_capacity m) = Some (a', False, m')"
    by (auto simp: Let_def split: option.splits bool.splits if_splits)
  then show ?thesis by (simp add: resize_failure_same)
qed

lemma insert_no_resize:
  assumes "\<not> over_load m" "hashmap_insert d a m k v = Some (a', r, m')"
  shows "a' = a \<and> r \<and> capacity m' = capacity m \<and> count m' = count m + 1 \<and>
         capacity m \<noteq> 0 \<and>
         insert_loop m (unat (hash_fn m k) mod capacity m) 0
           \<lparr>key = k, value' = v, status = OCCUPIED, hash = hash_fn m k\<rparr> = Some m'"
proof (cases d)
  case 0
  with assms show ?thesis by simp
next
  case (Suc n)
  with assms have pl: "capacity m \<noteq> 0" "a' = a" "r"
      "insert_loop m (unat (hash_fn m k) mod capacity m) 0
           \<lparr>key = k, value' = v, status = OCCUPIED, hash = hash_fn m k\<rparr> = Some m'"
    by (auto simp: Let_def split: option.splits if_splits)
  with insert_loop_fields [OF pl(4)] show ?thesis by simp
qed

text \<open>
  The bound on the depth of the calls only decides whether a result is reached: a result
  reached within a bound is the result within every larger bound.
\<close>

lemma depth_mono:
  fixes m :: "('k::zero, 'v::zero) hashmap_t" and nm :: "('k, 'v) hashmap_t"
  shows "hashmap_insert d a m k v = Some r \<Longrightarrow> d \<le> d' \<Longrightarrow> hashmap_insert d' a m k v = Some r"
    and "hashmap_resize d a m nc = Some r \<Longrightarrow> d \<le> d' \<Longrightarrow> hashmap_resize d' a m nc = Some r"
    and "resize_loop d a es nm = Some r \<Longrightarrow> d \<le> d' \<Longrightarrow> resize_loop d' a es nm = Some r"
proof (induction d a m k v and d a m nc and d a es nm arbitrary: r d' and r d' and r d'
    rule: hashmap_insert_hashmap_resize_resize_loop.induct)
  case (1 a m k v)
  then show ?case by simp
next
  case (2 depth a m k v)
  from "2.prems"(2) obtain n where d': "d' = Suc n" "depth \<le> n" by (cases d') simp_all
  show ?case
  proof (cases "over_load m")
    case True
    with "2.prems"(1) obtain r1 where
      rs: "hashmap_resize depth a m (grown_capacity m) = Some r1"
      by (auto split: option.splits)
    from "2.IH" [OF True rs d'(2)] have "hashmap_resize n a m (grown_capacity m) = Some r1" .
    with rs True "2.prems"(1) show ?thesis unfolding d'(1) by simp
  next
    case False
    with "2.prems"(1) show ?thesis unfolding d'(1) by simp
  qed
next
  case (3 depth a m new_capacity)
  obtain a1 and x :: "('k, 'v) hashmap_t option" where
    nw: "hashmap_new a new_capacity (grow_factor m) (hash_fn m) (cmp_fn m) = (a1, x)"
    by (cases "hashmap_new a new_capacity (grow_factor m) (hash_fn m) (cmp_fn m)
                 :: allocator \<times> ('k, 'v) hashmap_t option") blast
  show ?case
  proof (cases x)
    case None
    with nw "3.prems"(1) show ?thesis by simp
  next
    case (Some new_map)
    with nw "3.prems"(1) obtain r1 where
      lp: "resize_loop depth a1 (map (\<lambda>i. entries m ! i) [0..<capacity m]) new_map = Some r1"
      by (auto split: option.splits)
    from "3.IH" [OF nw [symmetric] Some lp "3.prems"(2)]
    have "resize_loop d' a1 (map (\<lambda>i. entries m ! i) [0..<capacity m]) new_map = Some r1" .
    with lp nw Some "3.prems"(1) show ?thesis by simp
  qed
next
  case (4 depth a new_map)
  then show ?case by simp
next
  case (5 depth a e es new_map)
  show ?case
  proof (cases "status e = OCCUPIED")
    case True
    with "5.prems"(1) obtain a1 ok nm1 where
      ins: "hashmap_insert depth a new_map (key e) (value' e) = Some (a1, ok, nm1)"
      by (auto split: option.splits)
    from "5.IH"(1) [OF True ins "5.prems"(2)]
    have ins': "hashmap_insert d' a new_map (key e) (value' e) = Some (a1, ok, nm1)" .
    show ?thesis
    proof (cases ok)
      case False
      with True ins "5.prems"(1) have "r = (a1, False, nm1)" by simp
      with True False ins' show ?thesis by simp
    next
      case ok: True
      from ins ok have ins1:
        "hashmap_insert depth a new_map (key e) (value' e) = Some (a1, True, nm1)" by simp
      with True "5.prems"(1) have "resize_loop depth a1 es nm1 = Some r" by simp
      from "5.IH"(2) [OF True ins1 refl refl refl this "5.prems"(2)]
      have "resize_loop d' a1 es nm1 = Some r" .
      with True ins' ok show ?thesis by simp
    qed
  next
    case False
    with "5.prems"(1) have "resize_loop depth a es new_map = Some r" by simp
    from "5.IH"(3) [OF False this "5.prems"(2)] False show ?thesis by simp
  qed
qed

lemma resize_loop_no_resize:
  "resize_loop d a es nm = Some (a', True, nm') \<Longrightarrow>
   10 * (count nm + length (occupied es)) \<le> 9 * capacity nm \<Longrightarrow>
   capacity nm' = capacity nm \<and> count nm' = count nm + length (occupied es)"
proof (induction es arbitrary: a nm)
  case Nil
  then show ?case by (simp add: occupied_def)
next
  case (Cons e es)
  show ?case
  proof (cases "status e = OCCUPIED")
    case True
    with Cons.prems(1) obtain a1 nm1 where
      ins: "hashmap_insert d a nm (key e) (value' e) = Some (a1, True, nm1)"
      and rest: "resize_loop d a1 es nm1 = Some (a', True, nm')"
      by (auto split: option.splits bool.splits)
    from True Cons.prems(2) have "\<not> over_load nm" by (simp add: over_load_def occupied_def)
    from insert_no_resize [OF this ins]
    have r: "capacity nm1 = capacity nm" "count nm1 = count nm + 1" by simp_all
    with True Cons.prems(2) have "10 * (count nm1 + length (occupied es)) \<le> 9 * capacity nm1"
      by (simp add: occupied_def)
    from Cons.IH [OF rest this] r True show ?thesis by (simp add: occupied_def)
  next
    case False
    with Cons.prems have "resize_loop d a es nm = Some (a', True, nm')"
      "10 * (count nm + length (occupied es)) \<le> 9 * capacity nm"
      by (simp_all add: occupied_def)
    from Cons.IH [OF this] False show ?thesis by (simp add: occupied_def)
  qed
qed

lemma resize_exact_capacity:
  assumes "hashmap_resize d a m nc = Some (a', True, m')" "capacity m = length (entries m)"
    "10 * length (occupied (entries m)) \<le> 9 * nc"
  shows "capacity m' = nc"
proof -
  from assms(1) obtain a1 new_map new_map' where
    nw: "hashmap_new a nc (grow_factor m) (hash_fn m) (cmp_fn m) = (a1, Some new_map)"
    and lp: "resize_loop d a1 (map (\<lambda>i. entries m ! i) [0..<capacity m]) new_map
               = Some (a', True, new_map')"
    and m': "m' = m\<lparr>entries := entries new_map', capacity := capacity new_map',
                      count := count new_map'\<rparr>"
    by (auto split: prod.splits option.splits bool.splits)
  note fresh = hashmap_new_Some [OF nw]
  have c: "capacity new_map = nc" "count new_map = 0" unfolding fresh by simp_all
  from lp have "resize_loop d a1 (entries m) new_map = Some (a', True, new_map')"
    by (simp add: map_nth_entries [OF assms(2)])
  from resize_loop_no_resize [OF this] c assms(3) show ?thesis unfolding m' by simp
qed

lemma count_pairs: "table_ok m \<Longrightarrow> count m = size (pairs m)"
  by (simp add: table_ok_def pairs_def)



subsection \<open>Removal and the scans\<close>

lemma remove_loop_induct [consumes 1, case_names empty found skip]:
  assumes run: "remove_loop m k h i = Some r"
    and empty: "\<And>m k h i. status (entries m ! i) = FLUENT_LIBC_HASHMAP_EMPTY \<Longrightarrow>
        P m k h i (False, m)"
    and found: "\<And>m k h i. matches m k h i \<Longrightarrow> P m k h i (True, tombstoned m i)"
    and skip: "\<And>m k h i r. status (entries m ! i) \<noteq> FLUENT_LIBC_HASHMAP_EMPTY \<Longrightarrow>
        \<not> matches m k h i \<Longrightarrow> P m k h (Suc i mod capacity m) r \<Longrightarrow> P m k h i r"
  shows "P m k h i r"
proof (rule remove_loop.raw_induct [where P = P, OF _ run])
  fix loop m k h i r
  assume IH: "\<And>m k h i y. loop m k h i = Some y \<Longrightarrow> P m k h i y"
    and body: "(if status (entries m ! i) \<noteq> FLUENT_LIBC_HASHMAP_EMPTY then
        if status (entries m ! i) = OCCUPIED \<and> hash (entries m ! i) = h \<and>
           cmp_fn m (key (entries m ! i)) k \<noteq> 0
        then Some (True,
               m\<lparr>entries := (entries m)[i := (entries m ! i)\<lparr>key := 0, status := TOMBSTONE\<rparr>],
                 count := (if count m = 0 then SIZE_MAX else count m - 1)\<rparr>)
        else loop m k h ((i + 1) mod capacity m)
      else Some (False, m)) = Some r"
  show "P m k h i r"
  proof (cases "status (entries m ! i) = FLUENT_LIBC_HASHMAP_EMPTY")
    case True
    with body empty [OF True] show ?thesis by simp
  next
    case ne: False
    show ?thesis
    proof (cases "matches m k h i")
      case True
      with body have "r = (True, tombstoned m i)"
        by (auto simp: matches_def tombstoned_def)
      with found [OF True] show ?thesis by simp
    next
      case False
      with ne body have "loop m k h (Suc i mod capacity m) = Some r"
        by (auto simp: matches_def split: if_splits)
      from skip [OF ne False IH [OF this]] show ?thesis .
    qed
  qed
qed

lemma get_loop_induct [consumes 1, case_names empty found skip]:
  assumes run: "get_loop m k h i = Some r"
    and empty: "\<And>m k h i. status (entries m ! i) = FLUENT_LIBC_HASHMAP_EMPTY \<Longrightarrow>
        P m k h i None"
    and found: "\<And>m k h i. matches m k h i \<Longrightarrow> P m k h i (Some (value' (entries m ! i)))"
    and skip: "\<And>m k h i r. status (entries m ! i) \<noteq> FLUENT_LIBC_HASHMAP_EMPTY \<Longrightarrow>
        \<not> matches m k h i \<Longrightarrow> P m k h (Suc i mod capacity m) r \<Longrightarrow> P m k h i r"
  shows "P m k h i r"
proof (rule get_loop.raw_induct [where P = P, OF _ run])
  fix loop m k h i r
  assume IH: "\<And>m k h i y. loop m k h i = Some y \<Longrightarrow> P m k h i y"
    and body: "(if status (entries m ! i) \<noteq> FLUENT_LIBC_HASHMAP_EMPTY then
        if status (entries m ! i) = OCCUPIED \<and> hash (entries m ! i) = h \<and>
           cmp_fn m (key (entries m ! i)) k \<noteq> 0
        then Some (Some (value' (entries m ! i)))
        else loop m k h ((i + 1) mod capacity m)
      else Some None) = Some r"
  show "P m k h i r"
  proof (cases "status (entries m ! i) = FLUENT_LIBC_HASHMAP_EMPTY")
    case True
    with body empty [OF True] show ?thesis by simp
  next
    case ne: False
    show ?thesis
    proof (cases "matches m k h i")
      case True
      with body have "r = Some (value' (entries m ! i))"
        by (auto simp: matches_def)
      with found [OF True] show ?thesis by simp
    next
      case False
      with ne body have "loop m k h (Suc i mod capacity m) = Some r"
        by (auto simp: matches_def split: if_splits)
      from skip [OF ne False IH [OF this]] show ?thesis .
    qed
  qed
qed

lemma remove_loop_True:
  assumes "remove_loop m k h i = Some r" "i < capacity m" "fst r"
  shows "\<exists>p<capacity m. matches m k h p \<and> snd r = tombstoned m p"
  using assms
proof (induction rule: remove_loop_induct)
  case (empty m k h i)
  then show ?case by simp
next
  case (found m k h i)
  then show ?case by auto
next
  case (skip m k h i r)
  then show ?case by (simp add: Suc_mod_less)
qed

lemma get_loop_not_found:
  assumes "i < capacity m"
    "status (entries m ! ((i + d) mod capacity m)) = FLUENT_LIBC_HASHMAP_EMPTY"
    "\<forall>q<capacity m. \<not> matches m k h q"
  shows "get_loop m k h i = Some None"
  using assms(1,2)
proof (induction d arbitrary: i)
  case 0
  then show ?case by (simp add: get_loop_empty)
next
  case (Suc d)
  show ?case
  proof (cases "status (entries m ! i) = FLUENT_LIBC_HASHMAP_EMPTY")
    case True
    then show ?thesis by (simp add: get_loop_empty)
  next
    case False
    have lt: "Suc i mod capacity m < capacity m" using Suc.prems(1) by (rule Suc_mod_less)
    have "(Suc i mod capacity m + d) mod capacity m = (i + Suc d) mod capacity m"
      by (simp add: mod_add_left_eq)
    with Suc.prems(2) have "get_loop m k h (Suc i mod capacity m) = Some None"
      by (intro Suc.IH lt) simp
    with False assms(3) Suc.prems(1) show ?thesis by (simp add: get_loop_skip)
  qed
qed

lemma get_loop_never:
  assumes "get_loop m k h i = Some r"
    "\<forall>q<capacity m. status (entries m ! q) \<noteq> FLUENT_LIBC_HASHMAP_EMPTY \<and> \<not> matches m k h q"
    "i < capacity m"
  shows False
  using assms
proof (induction rule: get_loop_induct)
  case (empty m k h i)
  then show ?case by simp
next
  case (found m k h i)
  then show ?case by simp
next
  case (skip m k h i r)
  then show ?case by (simp add: Suc_mod_less)
qed

lemma get_loop_diverges:
  assumes "\<forall>q<capacity m. status (entries m ! q) \<noteq> FLUENT_LIBC_HASHMAP_EMPTY \<and> \<not> matches m k h q"
    and "i < capacity m"
  shows "get_loop m k h i = None"
proof (cases "get_loop m k h i")
  case None
  then show ?thesis .
next
  case (Some r)
  from get_loop_never [OF Some assms] show ?thesis ..
qed

lemma matches_tombstoned:
  assumes "capacity m = length (entries m)" "p < capacity m" "q < capacity m"
  shows "matches (tombstoned m p) k h q = (q \<noteq> p \<and> matches m k h q)"
  using assms by (auto simp: matches_def tombstoned_def nth_list_update)

lemma remove_then_get_aux:
  assumes wf: "capacity m = length (entries m)"
    and rm: "hashmap_remove m k = Some (True, m')"
    and uniq: "\<forall>p<capacity m. \<forall>q<capacity m.
        matches m k (hash_fn m k) p \<longrightarrow> matches m k (hash_fn m k) q \<longrightarrow> p = q"
    and empty: "\<exists>j<capacity m. status (entries m ! j) = FLUENT_LIBC_HASHMAP_EMPTY"
  shows "hashmap_get m' k = Some None \<and>
         (\<exists>p<capacity m. matches m k (hash_fn m k) p \<and> m' = tombstoned m p)"
proof -
  let ?h = "hash_fn m k"
  from rm have pos: "capacity m \<noteq> 0" and lp: "remove_loop m k ?h (unat ?h mod capacity m) = Some (True, m')"
    by (auto simp: hashmap_remove_def Let_def split: if_splits)
  have "unat ?h mod capacity m < capacity m" using pos by simp
  from remove_loop_True [OF lp this] obtain p where
    p: "p < capacity m" "matches m k ?h p" "m' = tombstoned m p" by auto
  from empty obtain j where j: "j < capacity m" "status (entries m ! j) = FLUENT_LIBC_HASHMAP_EMPTY"
    by blast
  with p(2) have jp: "j \<noteq> p" by (auto simp: matches_def)
  have cap: "capacity m' = capacity m" "hash_fn m' = hash_fn m" by (simp_all add: p(3) tombstoned_def)
  let ?i = "unat ?h mod capacity m"
  have i: "?i < capacity m'" using pos cap by simp
  have "(?i + (j + capacity m - ?i) mod capacity m) mod capacity m = j"
    using i j(1) cap by (intro cyclic_reach) simp_all
  moreover have "status (entries m' ! j) = FLUENT_LIBC_HASHMAP_EMPTY"
    using j jp wf p(1) by (simp add: p(3) tombstoned_def)
  ultimately have e: "status (entries m' ! ((?i + (j + capacity m - ?i) mod capacity m) mod capacity m'))
      = FLUENT_LIBC_HASHMAP_EMPTY" using cap by simp
  have nm: "\<forall>q<capacity m'. \<not> matches m' k ?h q"
  proof (intro allI impI)
    fix q assume q: "q < capacity m'"
    then have "q < capacity m" using cap by simp
    with uniq p(1,2) wf show "\<not> matches m' k ?h q"
      unfolding p(3) by (auto simp: matches_tombstoned)
  qed
  from get_loop_not_found [OF i e nm] pos cap have "hashmap_get m' k = Some None"
    by (simp add: hashmap_get_def)
  with p show ?thesis by blast
qed

lemma tombstoned_count:
  assumes "capacity m = length (entries m)" "count m = length (occupied (entries m))"
    "p < capacity m" "status (entries m ! p) = OCCUPIED"
  shows "count (tombstoned m p) + 1 = count m"
proof -
  have "entries m ! p \<in> set (occupied (entries m))" using assms by (simp add: occupied_def)
  then have "occupied (entries m) \<noteq> []" by auto
  then have "0 < count m" using assms(2) by simp
  then show ?thesis by (simp add: tombstoned_def)
qed



lemma remove_loop_match:
  "matches m k h i \<Longrightarrow> remove_loop m k h i = Some (True, tombstoned m i)"
  by (subst remove_loop.simps) (simp add: matches_def tombstoned_def)

lemma Suc_mod_neq: "2 \<le> n \<Longrightarrow> i < n \<Longrightarrow> Suc i mod n \<noteq> i"
  by (simp add: mod_if)


subsection \<open>The iterator\<close>

lemma iter_next_map [simp]: "map' (snd (hashmap_iter_next iter)) = map' iter"
  by (induction iter rule: hashmap_iter_next.induct)
     (subst hashmap_iter_next.simps, simp add: Let_def)

lemma iter_next_Some:
  "fst (hashmap_iter_next iter) = Some e \<Longrightarrow>
     index iter \<le> e \<and> e < capacity (map' iter) \<and>
     status (entries (map' iter) ! e) = OCCUPIED \<and>
     index (snd (hashmap_iter_next iter)) = Suc e \<and>
     (\<forall>j. index iter \<le> j \<and> j < e \<longrightarrow> status (entries (map' iter) ! j) \<noteq> OCCUPIED)"
proof (induction iter rule: hashmap_iter_next.induct)
  case (1 iter)
  show ?case
  proof (cases "index iter < capacity (map' iter)")
    case False
    with "1.prems" show ?thesis by (subst (asm) hashmap_iter_next.simps) simp
  next
    case lt: True
    show ?thesis
    proof (cases "status (entries (map' iter) ! index iter) = OCCUPIED")
      case True
      with lt "1.prems" show ?thesis
        by (subst hashmap_iter_next.simps, subst (asm) hashmap_iter_next.simps)
           (auto simp: Let_def)
    next
      case False
      let ?it = "iter\<lparr>index := index iter + 1\<rparr>"
      from lt False have eq: "hashmap_iter_next iter = hashmap_iter_next ?it"
        by (subst hashmap_iter_next.simps) (simp add: Let_def)
      with "1.prems" have "fst (hashmap_iter_next ?it) = Some e" by simp
      from "1.IH" [OF lt refl refl False this] have
        r: "Suc (index iter) \<le> e" "e < capacity (map' iter)"
          "status (entries (map' iter) ! e) = OCCUPIED"
          "index (snd (hashmap_iter_next ?it)) = Suc e"
          "\<forall>j. Suc (index iter) \<le> j \<and> j < e \<longrightarrow> status (entries (map' iter) ! j) \<noteq> OCCUPIED"
        by simp_all
      have "\<forall>j. index iter \<le> j \<and> j < e \<longrightarrow> status (entries (map' iter) ! j) \<noteq> OCCUPIED"
      proof (intro allI impI)
        fix j assume j: "index iter \<le> j \<and> j < e"
        show "status (entries (map' iter) ! j) \<noteq> OCCUPIED"
        proof (cases "j = index iter")
          case True
          with False show ?thesis by simp
        next
          case False
          with j r(5) show ?thesis by simp
        qed
      qed
      with r eq show ?thesis by simp
    qed
  qed
qed

lemma iter_next_None:
  "fst (hashmap_iter_next iter) = None \<Longrightarrow>
     (\<forall>j. index iter \<le> j \<and> j < capacity (map' iter) \<longrightarrow>
        status (entries (map' iter) ! j) \<noteq> OCCUPIED) \<and>
     fst (hashmap_iter_next (snd (hashmap_iter_next iter))) = None"
proof (induction iter rule: hashmap_iter_next.induct)
  case (1 iter)
  show ?case
  proof (cases "index iter < capacity (map' iter)")
    case False
    then have "hashmap_iter_next iter = (None, iter)"
      by (subst hashmap_iter_next.simps) simp
    with False show ?thesis by auto
  next
    case lt: True
    show ?thesis
    proof (cases "status (entries (map' iter) ! index iter) = OCCUPIED")
      case True
      with lt "1.prems" show ?thesis
        by (subst (asm) hashmap_iter_next.simps) (simp add: Let_def)
    next
      case False
      let ?it = "iter\<lparr>index := index iter + 1\<rparr>"
      from lt False have eq: "hashmap_iter_next iter = hashmap_iter_next ?it"
        by (subst hashmap_iter_next.simps) (simp add: Let_def)
      with "1.prems" have "fst (hashmap_iter_next ?it) = None" by simp
      from "1.IH" [OF lt refl refl False this] have
        r: "\<forall>j. Suc (index iter) \<le> j \<and> j < capacity (map' iter) \<longrightarrow>
              status (entries (map' iter) ! j) \<noteq> OCCUPIED"
          "fst (hashmap_iter_next (snd (hashmap_iter_next ?it))) = None"
        by simp_all
      have "\<forall>j. index iter \<le> j \<and> j < capacity (map' iter) \<longrightarrow>
              status (entries (map' iter) ! j) \<noteq> OCCUPIED"
      proof (intro allI impI)
        fix j assume j: "index iter \<le> j \<and> j < capacity (map' iter)"
        show "status (entries (map' iter) ! j) \<noteq> OCCUPIED"
        proof (cases "j = index iter")
          case True
          with False show ?thesis by simp
        next
          case False
          with j r(1) show ?thesis by simp
        qed
      qed
      with r(2) eq show ?thesis by simp
    qed
  qed
qed

lemma filter_upt_first:
  assumes "i \<le> e" "e < n" "P e" "\<forall>j. i \<le> j \<and> j < e \<longrightarrow> \<not> P j"
  shows "filter P [i..<n] = e # filter P [Suc e..<n]"
proof -
  have "[i..<n] = [i..<e] @ e # [Suc e..<n]"
    using assms(1,2) by (metis le_Suc_ex less_imp_le_nat upt_add_eq_append upt_conv_Cons)
  moreover have "filter P [i..<e] = []" using assms(4) by (simp add: filter_empty_conv)
  ultimately show ?thesis using assms(3) by simp
qed

lemma iter_collect_returns:
  "\<exists>final. iter_collect iter =
       Some (filter (\<lambda>j. status (entries (map' iter) ! j) = OCCUPIED)
               [index iter..<capacity (map' iter)], final) \<and>
     fst (hashmap_iter_next final) = None"
proof (induction "capacity (map' iter) - index iter" arbitrary: iter rule: less_induct)
  case less
  obtain x y where xy: "hashmap_iter_next iter = (x, y)" by (cases "hashmap_iter_next iter")
  show ?case
  proof (cases x)
    case None
    with xy have n: "fst (hashmap_iter_next iter) = None" by simp
    from xy None have c: "iter_collect iter = Some ([], y)"
      by (subst iter_collect.simps) simp
    from iter_next_None [OF n] xy c show ?thesis by (simp add: filter_empty_conv)
  next
    case (Some e)
    with xy have s: "fst (hashmap_iter_next iter) = Some e" by simp
    from iter_next_Some [OF s] have p: "index iter \<le> e" "e < capacity (map' iter)"
      "status (entries (map' iter) ! e) = OCCUPIED"
      "index (snd (hashmap_iter_next iter)) = Suc e"
      "\<forall>j. index iter \<le> j \<and> j < e \<longrightarrow> status (entries (map' iter) ! j) \<noteq> OCCUPIED"
      by simp_all
    from xy have y: "map' y = map' iter" "index y = Suc e"
      using iter_next_map [of iter] p(4) by simp_all
    have "capacity (map' y) - index y < capacity (map' iter) - index iter"
      using y p(1,2) by simp
    from less [OF this] y obtain final where
      ih: "iter_collect y =
        Some (filter (\<lambda>j. status (entries (map' iter) ! j) = OCCUPIED)
                [Suc e..<capacity (map' iter)], final)"
        "fst (hashmap_iter_next final) = None" by auto
    from xy Some ih(1) have c: "iter_collect iter =
        Some (e # filter (\<lambda>j. status (entries (map' iter) ! j) = OCCUPIED)
                [Suc e..<capacity (map' iter)], final)"
      by (subst iter_collect.simps) simp
    have "filter (\<lambda>j. status (entries (map' iter) ! j) = OCCUPIED) [index iter..<capacity (map' iter)]
        = e # filter (\<lambda>j. status (entries (map' iter) ! j) = OCCUPIED) [Suc e..<capacity (map' iter)]"
      using p by (intro filter_upt_first) simp_all
    with c ih(2) show ?thesis by simp
  qed
qed

lemma occupied_indices:
  "map (\<lambda>j. es ! j) (filter (\<lambda>j. status (es ! j) = OCCUPIED) [0..<length es]) = occupied es"
proof -
  have "occupied (map (\<lambda>j. es ! j) [0..<length es]) =
        map (\<lambda>j. es ! j) (filter (\<lambda>j. status (es ! j) = OCCUPIED) [0..<length es])"
    unfolding occupied_def by (simp add: filter_map comp_def)
  then show ?thesis by (simp add: map_nth)
qed

subsection \<open>Evaluation of the example tables\<close>

lemma hash_int_values:
  "hash_int 1 = 1364076727" "hash_int 2 = 821347078" "hash_int 3 = 2247144487"
  "hash_int 4 = 614249093" "hash_int 5 = 3423425485" "hash_int 6 = 1558924552"
  by (simp_all add: hash_int_def)

lemma replicate_small:
  "replicate 1 x = [x]" "replicate 2 x = [x, x]" "replicate 4 x = [x, x, x, x]"
  "replicate 8 x = [x, x, x, x, x, x, x, x]"
  "replicate 5 x = [x, x, x, x, x]" "replicate 6 x = [x, x, x, x, x, x]"
  by (simp_all add: eval_nat_numeral)

lemma upt_small: "[0..<1] = [0]" "[0..<2] = [0, 1]" "[0..<4] = [0, 1, 2, 3]"
  "[0..<5] = [0, 1, 2, 3, 4]"
  by (simp_all add: eval_nat_numeral upt_rec)

lemma all_less_4: "(\<forall>p<4. P p) = (P 0 \<and> P 1 \<and> P 2 \<and> P (3::nat))"
  by (auto simp: eval_nat_numeral less_Suc_eq)

lemma ex_less_4: "(\<exists>p<4. P p) = (P 0 \<or> P 1 \<or> P 2 \<or> P (3::nat))"
  by (auto simp: eval_nat_numeral less_Suc_eq)

lemma double_products:
  "double_to_size_t (round_double (round_double (of_nat 4) * round_double 2)) = 8"
  "double_to_size_t (round_double (round_double (of_nat 1) * round_double 2)) = 2"
  "double_to_size_t (round_double (round_double (of_nat 1) * round_double (3 / 2))) = 1"
  "double_to_size_t (round_double (round_double (of_nat 5) * round_double (6 / 5))) = 6"
  by code_simp+

lemma grown_capacity_values:
  "capacity m = 4 \<Longrightarrow> grow_factor m = 2 \<Longrightarrow> grown_capacity m = 8"
  "capacity m = 1 \<Longrightarrow> grow_factor m = 2 \<Longrightarrow> grown_capacity m = 2"
  "capacity m = 1 \<Longrightarrow> grow_factor m = 3 / 2 \<Longrightarrow> grown_capacity m = 1"
  "capacity m = 5 \<Longrightarrow> grow_factor m = 6 / 5 \<Longrightarrow> grown_capacity m = 6"
  unfolding grown_capacity_def by (simp_all only: double_products)

lemma succeeded_Some: "succeeded r \<Longrightarrow> \<exists>a m. r = Some (a, True, m)"
  by (cases r) auto

lemma load_ratio:
  "0 < c \<Longrightarrow> (real n / real c \<le> 9 / 10) = (10 * n \<le> 9 * c)"
proof -
  assume "0 < c"
  then have "(real n / real c \<le> 9 / 10) = (real n * 10 \<le> 9 * real c)"
    by (simp add: field_simps)
  also have "\<dots> = (real (10 * n) \<le> real (9 * c))" by (simp add: mult.commute)
  also have "\<dots> = (10 * n \<le> 9 * c)" by (rule of_nat_le_iff)
  finally show ?thesis .
qed

section \<open>Properties\<close>

text \<open>
  C9: \<open>hash_str_key\<close> applied to the empty string returns 2166136261, the FNV offset
  basis: the loop body never runs, so no byte is mixed in.
\<close>

theorem hash_str_key_empty: "hash_str_key '''' = 2166136261"
  by (simp add: hash_str_key_def)

text \<open>
  C1: take a freshly constructed table and a sequence of insertions whose keys are
  pairwise distinct under the comparison function (\<open>cmp_fn\<close> holds of two keys of the
  sequence exactly when they are the same element of the sequence). If every insertion
  of the sequence returns 1, then \<open>count\<close> is the number of keys inserted, and \<open>get\<close>
  on each inserted key returns the value inserted with it.
\<close>

theorem insert_distinct_then_get:
  assumes new: "hashmap_new a c g hf cf = (a0, Some m0)"
    and run: "insert_all d a0 m0 kvs = Some (a1, True, m1)"
    and dist: "\<forall>i<length kvs. \<forall>j<length kvs. (cf (fst (kvs ! i)) (fst (kvs ! j)) \<noteq> 0) = (i = j)"
  shows "count m1 = length kvs \<and> (\<forall>i<length kvs. hashmap_get m1 (fst (kvs ! i)) = Some (Some (snd (kvs ! i))))"
proof -
  note fresh = hashmap_new_Some [OF new]
  have ok0: "table_ok m0" "pairs m0 = {#}" "cmp_fn m0 = cf"
    unfolding fresh by (simp_all add: fresh_table_ok fresh_pairs)
  from insert_all_ok [OF run ok0(1)] ok0
  have r: "table_ok m1" "cmp_fn m1 = cf" "pairs m1 = mset kvs" by (simp_all add: same_config_def)
  from r(1) have wf: "capacity m1 = length (entries m1)" by (simp add: table_ok_def)
  have "size (pairs m1) = length kvs" using r(3) by simp
  then have cnt: "count m1 = length kvs" using r(1) by (simp add: pairs_def table_ok_def)
  have "hashmap_get m1 (fst (kvs ! i)) = Some (Some (snd (kvs ! i)))" if i: "i < length kvs" for i
  proof -
    let ?k = "fst (kvs ! i)" and ?v = "snd (kvs ! i)"
    have "(?k, ?v) \<in># pairs m1" using i r(3) by simp
    from pairs_slot [OF wf this] obtain p where p: "p < capacity m1"
      "status (entries m1 ! p) = OCCUPIED" "key (entries m1 ! p) = ?k" "value' (entries m1 ! p) = ?v"
      by blast
    have self: "cf ?k ?k \<noteq> 0" using dist i by simp
    have uniq: "\<forall>q<capacity m1. matches m1 ?k (hash_fn m1 ?k) q \<longrightarrow> value' (entries m1 ! q) = ?v"
    proof (intro allI impI)
      fix q assume q: "q < capacity m1" and mt: "matches m1 ?k (hash_fn m1 ?k) q"
      then have "(key (entries m1 ! q), value' (entries m1 ! q)) \<in># pairs m1"
        using wf by (intro pairs_nth) (simp_all add: matches_def)
      with r(3) obtain j where j: "j < length kvs" "kvs ! j = (key (entries m1 ! q), value' (entries m1 ! q))"
        by (auto simp: in_set_conv_nth)
      from mt r(2) j(2) have "cf (fst (kvs ! j)) ?k \<noteq> 0" by (simp add: matches_def)
      with dist i j(1) have "j = i" by simp
      with j(2) show "value' (entries m1 ! q) = ?v" by simp
    qed
    show ?thesis
      using r(1) p(1,2) _ _ uniq
    proof (rule hashmap_get_finds)
      show "cmp_fn m1 (key (entries m1 ! p)) ?k \<noteq> 0" using self p(3) r(2) by simp
      show "hash_fn m1 (key (entries m1 ! p)) = hash_fn m1 ?k" using p(3) by simp
    qed
  qed
  with cnt show ?thesis by simp
qed



theorem insert_distinct_then_get_witness:
  "\<exists>a1 m1. insert_all (Suc (Suc 0)) [] (demo_table 4 2)
              [(1, 10), (2, 20), (3, 30), (4, 40), (5, 50)] = Some (a1, True, m1) \<and>
     count m1 = 5 \<and> hashmap_get m1 3 = Some (Some 30)"
proof -
  let ?kvs = "[(1, 10), (2, 20), (3, 30), (4, 40), (5, 50)] :: (uint32_t \<times> int) list"
  have new: "hashmap_new [] 4 2 hash_int cmp_uint32 = ([], Some (demo_table 4 2))"
    by (simp add: hashmap_new_def hashmap_init_def demo_table_def)
  have "succeeded (insert_all (Suc (Suc 0)) [] (demo_table 4 2) ?kvs)"
    by (simp add: demo_table_def over_load_def grown_capacity_values hashmap_new_def
        hashmap_init_def hash_int_values replicate_small upt_small insert_loop_free
        insert_loop_occupied_step hash_probe_distance_def)
  then obtain a1 m1 where
    run: "insert_all (Suc (Suc 0)) [] (demo_table 4 2) ?kvs = Some (a1, True, m1)"
    using succeeded_Some by blast
  have dist: "\<forall>i<length ?kvs. \<forall>j<length ?kvs.
      (cmp_uint32 (fst (?kvs ! i)) (fst (?kvs ! j)) \<noteq> 0) = (i = j)"
    by (simp add: cmp_uint32_def less_Suc_eq nth_Cons' all_conj_distrib)
  note r = insert_distinct_then_get [OF new run dist]
  from r have "count m1 = 5" by simp
  moreover from r [THEN conjunct2, rule_format, of 2]
  have "hashmap_get m1 3 = Some (Some 30)" by simp
  ultimately show ?thesis using run by simp
qed

text \<open>
  C2: for a table whose growth factor is above 1, every \<open>insert\<close> that returns 1 leaves
  \<open>count / capacity \<le> 0.9\<close>, the resize before the insertion seeing to it. The code
  does not keep this bound: \<open>insert\<close> resizes once, to the capacity
  \<open>(size_t)(capacity * grow_factor)\<close>, and places the entry without looking at the load
  again. On a fresh table of capacity 1 with the growth factor 1.5 the check is
  positive, the resize asks for \<open>(size_t)1.5 = 1\<close> slot, and the insertion returns 1 with
  \<open>count / capacity = 1\<close>.
\<close>

theorem insert_load_factor_violated:
  "hashmap_new [] 1 (3 / 2) hash_int cmp_uint32 = ([], Some (demo_table 1 (3 / 2))) \<and>
   1 < grow_factor (demo_table 1 (3 / 2)) \<and>
   over_load (demo_table 1 (3 / 2)) \<and>
   grown_capacity (demo_table 1 (3 / 2)) = 1 \<and>
   hashmap_insert (Suc (Suc 0)) [] (demo_table 1 (3 / 2)) 1 10 = Some ([], True, demo_full) \<and>
   count demo_full = 1 \<and> capacity demo_full = 1 \<and>
   \<not> real (count demo_full) / real (capacity demo_full) \<le> 9 / 10"
  by (simp add: demo_table_def demo_full_def demo_entry_def over_load_def grown_capacity_values
      hashmap_new_def hashmap_init_def hash_int_values replicate_small upt_small
      insert_loop_free)

text \<open>
  That table is full and is never made larger: the next \<open>insert\<close> asks for 1 slot
  again, and its placement loop, which stops only at a slot that is not occupied, does
  not return, whatever the bound on the depth of the calls.
\<close>

theorem insert_full_table_never_returns:
  "hashmap_insert d [] demo_full 2 20 = None"
proof (cases d)
  case 0
  then show ?thesis by simp
next
  case d: (Suc n)
  show ?thesis
  proof (cases n)
    case 0
    with d show ?thesis
      by (simp add: demo_full_def demo_entry_def over_load_def grown_capacity_values
          hashmap_new_def hashmap_init_def upt_small)
  next
    case (Suc j)
    with d show ?thesis
      by (simp add: demo_full_def demo_entry_def over_load_def grown_capacity_values
          hashmap_new_def hashmap_init_def hash_int_values replicate_small upt_small
          insert_loop_free insert_loop_full)
  qed
qed

text \<open>
  What the single resize does guarantee: for every table (whose capacity is the length
  of its slot array and whose count is the number of its occupied slots), an \<open>insert\<close>
  that returns 1 leaves \<open>count / capacity \<le> 0.9\<close> whenever the capacity that a positive
  check asks for is at least \<open>(count + 1) / 0.9\<close>.
\<close>

theorem insert_load_factor:
  assumes wf: "capacity m = length (entries m)"
    and cnt: "count m = length (occupied (entries m))"
    and ins: "hashmap_insert d a m k v = Some (a', True, m')"
    and room: "over_load m \<longrightarrow> 10 * (count m + 1) \<le> 9 * grown_capacity m"
  shows "0 < capacity m' \<and> real (count m') / real (capacity m') \<le> 9 / 10"
proof -
  have le: "0 < capacity m' \<and> 10 * count m' \<le> 9 * capacity m'"
  proof (cases "over_load m")
    case False
    from insert_no_resize [OF False ins] False show ?thesis by (simp add: over_load_def)
  next
    case True
    obtain n where d: "d = Suc n" using ins by (cases d) simp_all
    from ins True obtain a1 m1 where
      rs: "hashmap_resize n a m (grown_capacity m) = Some (a1, True, m1)"
      and pl: "capacity m1 \<noteq> 0"
        "insert_loop m1 (unat (hash_fn m1 k) mod capacity m1) 0
           \<lparr>key = k, value' = v, status = OCCUPIED, hash = hash_fn m1 k\<rparr> = Some m'"
      unfolding d by (auto simp: Let_def split: option.splits bool.splits if_splits)
    from insert_resize_ok(2) [OF rs wf] have "table_ok m1" "pairs m1 = pairs m" by simp_all
    then have "count m1 = size (pairs m)" by (simp add: count_pairs)
    with cnt have c1: "count m1 = count m" by (simp add: pairs_def)
    from room True cnt have "10 * length (occupied (entries m)) \<le> 9 * grown_capacity m"
      by simp
    from resize_exact_capacity [OF rs wf this] have "capacity m1 = grown_capacity m" .
    with room True c1 insert_loop_fields [OF pl(2)] pl(1) show ?thesis by simp
  qed
  then have "real (count m') / real (capacity m') \<le> 9 / 10"
    using load_ratio [of "capacity m'" "count m'"] by blast
  with le show ?thesis by blast
qed

theorem insert_load_factor_witness:
  "insert_all (Suc 0) [] (demo_table 5 (6 / 5)) [(1, 10), (2, 20), (3, 30), (4, 40)]
     = Some ([], True, demo_four) \<and>
   over_load demo_four \<and> grown_capacity demo_four = 6 \<and>
   (\<exists>a' m'. hashmap_insert (Suc (Suc 0)) [] demo_four 5 50 = Some (a', True, m') \<and>
      real (count m') / real (capacity m') \<le> 9 / 10)"
proof -
  have run: "insert_all (Suc 0) [] (demo_table 5 (6 / 5)) [(1, 10), (2, 20), (3, 30), (4, 40)]
          = Some ([], True, demo_four)"
    by (simp add: demo_table_def demo_four_def demo_entry_def over_load_def hash_int_values
        replicate_small insert_loop_free insert_loop_occupied_step hash_probe_distance_def)
  have wf: "capacity demo_four = length (entries demo_four)" by (simp add: demo_four_def)
  have cnt: "count demo_four = length (occupied (entries demo_four))"
    by (simp add: demo_four_def demo_entry_def occupied_def)
  have ov: "over_load demo_four" by (simp add: demo_four_def over_load_def)
  have gc: "grown_capacity demo_four = 6" by (simp add: demo_four_def grown_capacity_values)
  have room: "over_load demo_four \<longrightarrow>
      10 * (count demo_four + 1) \<le> 9 * grown_capacity demo_four"
    unfolding gc by (simp add: demo_four_def)
  have "succeeded (hashmap_insert (Suc (Suc 0)) [] demo_four 5 50)"
    by (simp add: demo_four_def demo_entry_def over_load_def grown_capacity_values
        hashmap_new_def hashmap_init_def hash_int_values replicate_small upt_small
        insert_loop_free insert_loop_occupied_step hash_probe_distance_def)
  then obtain a' m' where
    ins: "hashmap_insert (Suc (Suc 0)) [] demo_four 5 50 = Some (a', True, m')"
    using succeeded_Some by blast
  from insert_load_factor [OF wf cnt ins room] ins run ov gc show ?thesis by blast
qed

text \<open>
  C3: \<open>insert\<close> performs its capacity check as \<open>count + 1 > capacity * 0.9\<close> (for a
  capacity below \<open>2^49\<close> the comparison of the \<open>double\<close>s that C computes has the outcome
  of the exact one). When the check is negative, no resize happens: the entry is placed in the table as it is, and
  nothing is allocated. When it is positive, the table is first resized to
  \<open>capacity * grow_factor\<close>: the product of the capacity and the factor as \<open>double\<close>s,
  rounded to a \<open>double\<close>, without its fraction. For a capacity below \<open>2^53\<close> and a
  factor that is not negative, that is the whole part of a number within the relative
  error \<open>2^-53\<close> of the exact product of the capacity and the stored factor, which is
  itself within \<open>2^-53\<close> of the factor. If the resize does not return, neither does
  \<open>insert\<close>; if it fails, \<open>insert\<close> returns 0 and the table is unchanged; if it
  succeeds, the entry is placed in the resized table.
\<close>

theorem insert_capacity_check:
  "(over_load m \<longleftrightarrow> real (capacity m) * (9 / 10) < real (count m + 1)) \<and>
   (capacity m < 2 ^ 49 \<longrightarrow> count m + 1 < 2 ^ 53 \<longrightarrow>
      (over_load m \<longleftrightarrow> over_load_double m)) \<and>
   (\<not> over_load m \<longrightarrow>
      (\<forall>a' r m'. hashmap_insert (Suc d) a m k v = Some (a', r, m') \<longrightarrow>
         a' = a \<and> r \<and> capacity m' = capacity m \<and>
         insert_loop m (unat (hash_fn m k) mod capacity m) 0
           \<lparr>key = k, value' = v, status = OCCUPIED, hash = hash_fn m k\<rparr> = Some m')) \<and>
   grown_capacity m =
     nat \<lfloor>round_double (round_double (of_nat (capacity m)) * round_double (grow_factor m))\<rfloor> \<and>
   (capacity m < 2 ^ 53 \<longrightarrow> 0 \<le> grow_factor m \<longrightarrow>
      \<bar>round_double (grow_factor m) - grow_factor m\<bar> \<le> grow_factor m / 2 ^ 53 \<and>
      of_nat (capacity m) * round_double (grow_factor m) * (1 - 1 / 2 ^ 53) - 1
        < of_nat (grown_capacity m) \<and>
      of_nat (grown_capacity m)
        \<le> of_nat (capacity m) * round_double (grow_factor m) * (1 + 1 / 2 ^ 53)) \<and>
   (over_load m \<longrightarrow> hashmap_resize d a m (grown_capacity m) = None \<longrightarrow>
      hashmap_insert (Suc d) a m k v = None) \<and>
   (over_load m \<longrightarrow>
      (\<forall>a1 m1. hashmap_resize d a m (grown_capacity m) = Some (a1, False, m1) \<longrightarrow>
         hashmap_insert (Suc d) a m k v = Some (a1, False, m))) \<and>
   (over_load m \<longrightarrow>
      (\<forall>a1 m1. hashmap_resize d a m (grown_capacity m) = Some (a1, True, m1) \<longrightarrow>
         hashmap_insert (Suc d) a m k v =
           (if capacity m1 = 0 then None
            else map_option (\<lambda>m'. (a1, True, m'))
                   (insert_loop m1 (unat (hash_fn m1 k) mod capacity m1) 0
                      \<lparr>key = k, value' = v, status = OCCUPIED, hash = hash_fn m1 k\<rparr>))))"
proof (intro conjI impI allI)
  have "(real (capacity m) * (9 / 10) < real (count m + 1)) =
        (real (9 * capacity m) < real (10 * (count m + 1)))"
    by (simp add: field_simps)
  also have "\<dots> = (9 * capacity m < 10 * (count m + 1))" by (rule of_nat_less_iff)
  finally show "over_load m \<longleftrightarrow> real (capacity m) * (9 / 10) < real (count m + 1)"
    by (simp add: over_load_def)
next
  fix a' r m'
  assume "\<not> over_load m" "hashmap_insert (Suc d) a m k v = Some (a', r, m')"
  from insert_no_resize [OF this]
  show "a' = a" "r" "capacity m' = capacity m"
    "insert_loop m (unat (hash_fn m k) mod capacity m) 0
       \<lparr>key = k, value' = v, status = OCCUPIED, hash = hash_fn m k\<rparr> = Some m'"
    by simp_all
next
  assume "capacity m < 2 ^ 49" "count m + 1 < 2 ^ 53"
  then show "over_load m \<longleftrightarrow> over_load_double m"
    by (simp add: over_load_double_exact)
next
  show "grown_capacity m =
     nat \<lfloor>round_double (round_double (of_nat (capacity m)) * round_double (grow_factor m))\<rfloor>"
    by (simp add: grown_capacity_def double_to_size_t_def)
next
  assume "0 \<le> grow_factor m"
  then show "\<bar>round_double (grow_factor m) - grow_factor m\<bar> \<le> grow_factor m / 2 ^ 53"
    by (rule round_double_error')
next
  assume "capacity m < 2 ^ 53" "0 \<le> grow_factor m"
  from grown_capacity_bounds [OF this]
  show "of_nat (capacity m) * round_double (grow_factor m) * (1 - 1 / 2 ^ 53) - 1
        < of_nat (grown_capacity m)" ..
next
  assume "capacity m < 2 ^ 53" "0 \<le> grow_factor m"
  from grown_capacity_bounds [OF this]
  show "of_nat (grown_capacity m)
        \<le> of_nat (capacity m) * round_double (grow_factor m) * (1 + 1 / 2 ^ 53)" ..
next
  assume "over_load m" "hashmap_resize d a m (grown_capacity m) = None"
  then show "hashmap_insert (Suc d) a m k v = None" by simp
next
  fix a1 m1
  assume ov: "over_load m" and rs: "hashmap_resize d a m (grown_capacity m) = Some (a1, False, m1)"
  from resize_failure_same [OF rs] have "m1 = m" .
  with ov rs show "hashmap_insert (Suc d) a m k v = Some (a1, False, m)" by simp
next
  fix a1 m1
  assume "over_load m" "hashmap_resize d a m (grown_capacity m) = Some (a1, True, m1)"
  then show "hashmap_insert (Suc d) a m k v =
           (if capacity m1 = 0 then None
            else map_option (\<lambda>m'. (a1, True, m'))
                   (insert_loop m1 (unat (hash_fn m1 k) mod capacity m1) 0
                      \<lparr>key = k, value' = v, status = OCCUPIED, hash = hash_fn m1 k\<rparr>))"
    by (simp add: Let_def split: option.splits)
qed

theorem insert_capacity_check_witness:
  "over_load (demo_table 1 2) \<and>
   hashmap_resize (Suc 0) [False] (demo_table 1 2) (grown_capacity (demo_table 1 2))
     = Some ([], False, demo_table 1 2) \<and>
   hashmap_insert (Suc (Suc 0)) [False] (demo_table 1 2) 1 10 = Some ([], False, demo_table 1 2) \<and>
   \<not> over_load (demo_table 4 2) \<and>
   hashmap_insert (Suc 0) [False] (demo_table 4 2) 1 10 = Some ([False], True, demo_one) \<and>
   over_load demo_four \<and> over_load_double demo_four \<and>
   capacity demo_four = 5 \<and> grow_factor demo_four = 6 / 5 \<and>
   round_double (6 / 5) = 5404319552844595 / 4503599627370496 \<and>
   grown_capacity demo_four = 6 \<and>
   hashmap_resize (Suc 0) [] demo_four (grown_capacity demo_four)
     = Some ([], True, demo_four_resized) \<and>
   capacity demo_four_resized = 6 \<and>
   hashmap_insert (Suc (Suc 0)) [] demo_four 5 50 = Some ([], True, demo_five)"
proof -
  have ov: "over_load (demo_table 1 2)" by (simp add: over_load_def demo_table_def)
  have rs: "hashmap_resize (Suc 0) [False] (demo_table 1 2) (grown_capacity (demo_table 1 2))
     = Some ([], False, demo_table 1 2)"
    by (simp add: hashmap_new_def)
  have nov: "\<not> over_load (demo_table 4 2)" by (simp add: over_load_def demo_table_def)
  have ins: "hashmap_insert (Suc 0) [False] (demo_table 4 2) 1 10 = Some ([False], True, demo_one)"
    by (simp add: demo_table_def demo_one_def demo_entry_def over_load_def hash_int_values
        replicate_small insert_loop_free)
  note c = insert_capacity_check [of "demo_table 1 2" "Suc 0" "[False]" 1 10]
  from c ov rs have fail: "hashmap_insert (Suc (Suc 0)) [False] (demo_table 1 2) 1 10
      = Some ([], False, demo_table 1 2)" by blast
  have ov4: "over_load demo_four" by (simp add: demo_four_def over_load_def)
  have cg: "capacity demo_four = 5" "grow_factor demo_four = 6 / 5"
    by (simp_all add: demo_four_def)
  have r65: "round_double (6 / 5) = 5404319552844595 / 4503599627370496" by code_simp
  have prod: "nat \<lfloor>round_double (round_double (of_nat 5) * round_double (6 / 5))\<rfloor> = 6"
    by code_simp
  note c4 = insert_capacity_check [of demo_four "Suc 0" "[]" 5 50]
  have "capacity demo_four < 2 ^ 49" "count demo_four + 1 < 2 ^ 53"
    by (simp_all add: demo_four_def)
  with c4 ov4 have ovd: "over_load_double demo_four" by blast
  from c4 have "grown_capacity demo_four =
     nat \<lfloor>round_double (round_double (of_nat (capacity demo_four)) *
                          round_double (grow_factor demo_four))\<rfloor>" by blast
  then have gc: "grown_capacity demo_four = 6" unfolding cg prod .
  have rs4: "hashmap_resize (Suc 0) [] demo_four (grown_capacity demo_four)
     = Some ([], True, demo_four_resized)"
    unfolding gc
    by (simp add: demo_four_def demo_four_resized_def demo_entry_def over_load_def
        hashmap_new_def hashmap_init_def hash_int_values replicate_small upt_small
        insert_loop_free insert_loop_occupied_step hash_probe_distance_def)
  from c4 ov4 rs4 have "hashmap_insert (Suc (Suc 0)) [] demo_four 5 50 =
      (if capacity demo_four_resized = 0 then None
       else map_option (\<lambda>m'. ([], True, m'))
              (insert_loop demo_four_resized
                 (unat (hash_fn demo_four_resized 5) mod capacity demo_four_resized) 0
                 \<lparr>key = 5, value' = 50, status = OCCUPIED,
                    hash = hash_fn demo_four_resized 5\<rparr>))" by blast
  then have ins5: "hashmap_insert (Suc (Suc 0)) [] demo_four 5 50 = Some ([], True, demo_five)"
    by (simp add: demo_four_resized_def demo_five_def demo_entry_def hash_int_values
        insert_loop_free insert_loop_occupied_step hash_probe_distance_def)
  have c6: "capacity demo_four_resized = 6" by (simp add: demo_four_resized_def)
  from ov rs fail nov ins ov4 ovd cg r65 gc rs4 c6 ins5 show ?thesis by simp
qed

text \<open>
  The capacity asked for at some capacities and factors, as the \<open>double\<close> product gives
  it. The \<open>double\<close> stored for 1.2 is below 1.2, and 5 times it rounds to the \<open>double\<close>
  6; the \<open>double\<close> stored for 1.16 is below 1.16, and 25 times it rounds to a \<open>double\<close>
  below 29.
\<close>

theorem grown_capacity_examples:
  "grown_capacity (demo_table 5 (6 / 5)) = 6 \<and>
   grown_capacity (demo_table 10 (6 / 5)) = 12 \<and>
   grown_capacity (demo_table 15 (6 / 5)) = 18 \<and>
   grown_capacity (demo_table 20 (6 / 5)) = 24 \<and>
   grown_capacity (demo_table 5 (5404319552844595 / 4503599627370496)) = 6 \<and>
   grown_capacity (demo_table 25 (29 / 25)) = 28 \<and>
   grown_capacity (demo_table 5 (7 / 5)) = 7 \<and>
   grown_capacity (demo_table 10 (17 / 10)) = 17 \<and>
   grown_capacity (demo_table 16 (3 / 2)) = 24 \<and>
   grown_capacity (demo_table 1 (3 / 2)) = 1 \<and>
   grown_capacity (demo_table 3 (3 / 2)) = 4"
  by code_simp



text \<open>
  C5, as stated, fails in the capacity: \<open>resize\<close> reinserts with \<open>insert\<close>, which
  resizes the new table again when it is loaded. The table of capacity 4 that holds one
  key, resized to the capacity 1, ends with the capacity 2.
\<close>

theorem resize_capacity_counterexample:
  "hashmap_insert (Suc 0) [] (demo_table 4 2) 1 10 = Some ([], True, demo_one) \<and>
   hashmap_resize (Suc (Suc 0)) [] demo_one 1 = Some ([], True, demo_one_resized) \<and>
   capacity demo_one = length (entries demo_one) \<and>
   count demo_one = length (occupied (entries demo_one)) \<and>
   capacity demo_one_resized \<noteq> 1"
  by (simp add: demo_table_def demo_one_def demo_one_resized_def demo_entry_def over_load_def
      grown_capacity_values hashmap_new_def hashmap_init_def hash_int_values replicate_small
      upt_small insert_loop_free occupied_def zero_entry_def)

text \<open>
  C5, amended: for every table (whose capacity is the length of its slot array and whose
  count is the number of its occupied slots) and every new capacity on which \<open>resize\<close>
  succeeds, the multiset of the (key, value) pairs of the occupied slots is the same
  after the resize as before it, the count is unchanged, and no slot of the new array is
  a tombstone; the capacity is the requested one whenever the requested capacity keeps
  the load at or below 0.9 (\<open>count \<le> 0.9 * new_capacity\<close>).
\<close>

theorem resize_preserves_pairs:
  assumes rs: "hashmap_resize d a m nc = Some (a', True, m')"
    and wf: "capacity m = length (entries m)"
    and cnt: "count m = length (occupied (entries m))"
  shows "pairs m' = pairs m \<and> count m' = count m \<and> no_tombstone m' \<and>
         (10 * count m \<le> 9 * nc \<longrightarrow> capacity m' = nc)"
proof -
  from insert_resize_ok(2) [OF rs wf]
  have r: "table_ok m'" "pairs m' = pairs m" "no_tombstone m'" by simp_all
  from r(1,2) have "count m' = size (pairs m)" by (simp add: count_pairs)
  with cnt have c: "count m' = count m" by (simp add: pairs_def)
  have "capacity m' = nc" if "10 * count m \<le> 9 * nc"
    using rs wf that cnt by (intro resize_exact_capacity [OF rs wf]) simp
  with r c show ?thesis by simp
qed

theorem resize_preserves_pairs_witness:
  "\<exists>a' m'. hashmap_resize (Suc 0) [] demo_three 8 = Some (a', True, m') \<and>
     pairs m' = pairs demo_three \<and> count m' = 3 \<and> no_tombstone m' \<and> capacity m' = 8"
proof -
  have "succeeded (hashmap_resize (Suc 0) [] demo_three 8)"
    by (simp add: demo_three_def demo_entry_def over_load_def grown_capacity_values
        hashmap_new_def hashmap_init_def hash_int_values replicate_small upt_small
        insert_loop_free insert_loop_occupied_step hash_probe_distance_def)
  then obtain a' m' where rs: "hashmap_resize (Suc 0) [] demo_three 8 = Some (a', True, m')"
    using succeeded_Some by blast
  have wf: "capacity demo_three = length (entries demo_three)" by (simp add: demo_three_def)
  have cnt: "count demo_three = length (occupied (entries demo_three))"
    by (simp add: demo_three_def demo_entry_def occupied_def)
  have c: "count demo_three = 3" by (simp add: demo_three_def)
  from resize_preserves_pairs [OF rs wf cnt] rs c show ?thesis by simp
qed

text \<open>
  C6, as stated, fails: \<open>insert\<close> does not look for the key, so a table can hold a key
  twice. After 1 was inserted twice, a successful \<open>remove\<close> of 1 is followed by a
  \<open>get\<close> that finds the second copy.
\<close>

theorem remove_get_counterexample:
  "insert_all (Suc 0) [] (demo_table 4 2) [(1, 10), (1, 20)] = Some ([], True, demo_twice) \<and>
   hashmap_remove demo_twice 1 = Some (True, demo_twice_removed) \<and>
   hashmap_get demo_twice_removed 1 = Some (Some 20)"
  by (simp add: demo_table_def demo_twice_def demo_twice_removed_def demo_entry_def
      over_load_def hash_int_values replicate_small insert_loop_free insert_loop_occupied_step
      hash_probe_distance_def hashmap_remove_def hashmap_get_def remove_loop_match
      get_loop_match get_loop_skip matches_def tombstoned_def cmp_uint32_def Let_def)

text \<open>
  C6, amended: for every table (whose capacity is the length of its slot array and whose
  count is the number of its occupied slots) in which at most one slot holds the key
  \<open>k\<close> and at least one slot is empty, a successful \<open>remove\<close> of \<open>k\<close> followed by
  \<open>get\<close> of \<open>k\<close> returns \<open>NULL\<close> (not found); the \<open>remove\<close> decrements the count by
  exactly 1, and the status of the slot that held \<open>k\<close> becomes tombstone, the other
  slots staying as they were.
\<close>

theorem remove_then_get_not_found:
  assumes wf: "capacity m = length (entries m)"
    and cnt: "count m = length (occupied (entries m))"
    and rm: "hashmap_remove m k = Some (True, m')"
    and uniq: "\<forall>p<capacity m. \<forall>q<capacity m.
        matches m k (hash_fn m k) p \<longrightarrow> matches m k (hash_fn m k) q \<longrightarrow> p = q"
    and empty: "\<exists>j<capacity m. status (entries m ! j) = FLUENT_LIBC_HASHMAP_EMPTY"
  shows "hashmap_get m' k = Some None \<and> count m' + 1 = count m \<and>
    (\<exists>p<capacity m. matches m k (hash_fn m k) p \<and> status (entries m' ! p) = TOMBSTONE \<and>
       (\<forall>q<capacity m. q \<noteq> p \<longrightarrow> entries m' ! q = entries m ! q))"
proof -
  from remove_then_get_aux [OF wf rm uniq empty] obtain p where
    g: "hashmap_get m' k = Some None"
    and p: "p < capacity m" "matches m k (hash_fn m k) p" "m' = tombstoned m p" by blast
  from p(2) have occ: "status (entries m ! p) = OCCUPIED" by (simp add: matches_def)
  from tombstoned_count [OF wf cnt p(1) occ] p(3) have c: "count m' + 1 = count m" by simp
  have "status (entries m' ! p) = TOMBSTONE" using p(1) wf by (simp add: p(3) tombstoned_def)
  moreover have "\<forall>q<capacity m. q \<noteq> p \<longrightarrow> entries m' ! q = entries m ! q"
    by (simp add: p(3) tombstoned_def)
  ultimately show ?thesis using g c p(1,2) by blast
qed

theorem remove_then_get_not_found_witness:
  "\<exists>m'. hashmap_remove demo_three 3 = Some (True, m') \<and> hashmap_get m' 3 = Some None \<and>
     count m' = 2"
proof -
  have wf: "capacity demo_three = length (entries demo_three)" by (simp add: demo_three_def)
  have cnt: "count demo_three = length (occupied (entries demo_three))"
    by (simp add: demo_three_def demo_entry_def occupied_def)
  have "\<exists>m'. hashmap_remove demo_three 3 = Some (True, m')"
    by (simp add: demo_three_def demo_entry_def hashmap_remove_def remove_loop_match
        remove_loop.simps [of _ _ _ 3] hash_int_values matches_def cmp_uint32_def Let_def)
  then obtain m' where rm: "hashmap_remove demo_three 3 = Some (True, m')" by blast
  have uniq: "\<forall>p<capacity demo_three. \<forall>q<capacity demo_three.
        matches demo_three 3 (hash_fn demo_three 3) p \<longrightarrow>
        matches demo_three 3 (hash_fn demo_three 3) q \<longrightarrow> p = q"
    by (simp add: demo_three_def demo_entry_def matches_def all_less_4 hash_int_values
        cmp_uint32_def)
  have empty: "\<exists>j<capacity demo_three. status (entries demo_three ! j) = FLUENT_LIBC_HASHMAP_EMPTY"
    by (simp add: demo_three_def ex_less_4)
  from remove_then_get_not_found [OF wf cnt rm uniq empty]
  have "hashmap_get m' 3 = Some None" "count m' + 1 = count demo_three" by simp_all
  with rm show ?thesis by (simp add: demo_three_def)
qed

text \<open>
  The empty slot that the amended property asks for is needed. The scan of \<open>get\<close> ends
  only at an empty slot or at a match, and the capacity check of \<open>insert\<close> does not
  count tombstones: on a table with no empty slot, \<open>get\<close> of a key that no slot holds
  does not return. Such a table is reached from a fresh one by inserting and removing
  four keys with four different home slots; the \<open>get\<close> that follows the last
  \<open>remove\<close> does not return.
\<close>

theorem get_without_empty_slot_diverges:
  assumes "\<forall>q<capacity m. status (entries m ! q) \<noteq> FLUENT_LIBC_HASHMAP_EMPTY \<and>
             \<not> matches m k (hash_fn m k) q"
    and "0 < capacity m"
  shows "hashmap_get m k = None"
  using assms by (simp add: hashmap_get_def get_loop_diverges)

theorem tombstones_fill_table:
  "run_calls (Suc 0) [] (demo_table 4 2)
     [Insert 6 60, Remove 6, Insert 4 40, Remove 4, Insert 2 20, Remove 2, Insert 1 10, Remove 1]
     = Some ([], True, demo_tombstones) \<and>
   hashmap_get demo_tombstones 1 = None"
proof -
  have "run_calls (Suc 0) [] (demo_table 4 2)
     [Insert 6 60, Remove 6, Insert 4 40, Remove 4, Insert 2 20, Remove 2, Insert 1 10, Remove 1]
     = Some ([], True, demo_tombstones)"
    by (simp add: demo_table_def demo_tombstones_def demo_entry_def over_load_def
        hash_int_values replicate_small insert_loop_free hashmap_remove_def remove_loop_match
        matches_def tombstoned_def cmp_uint32_def SIZE_MAX_def Let_def)
  moreover have "hashmap_get demo_tombstones 1 = None"
    by (rule get_without_empty_slot_diverges)
       (simp_all add: demo_tombstones_def demo_entry_def matches_def all_less_4)
  ultimately show ?thesis by simp
qed

text \<open>
  C7: in a fresh table with at least two slots, insert \<open>x\<close>, remove \<open>x\<close>, then insert
  \<open>y\<close>, a key different from \<open>x\<close> whose home slot is the slot of the tombstone that
  \<open>x\<close> left. All three calls succeed, \<open>y\<close> takes the slot of the tombstone, \<open>get\<close> of
  \<open>x\<close> returns \<open>NULL\<close> (not found) and \<open>get\<close> of \<open>y\<close> returns the value inserted with
  \<open>y\<close>. The scan of \<open>get\<close> steps over a tombstone and stops at an empty slot.
\<close>

theorem tombstone_scenario:
  fixes x y :: "'k::zero" and v1 v2 :: "'v::zero"
  assumes new: "hashmap_new a c g hf cf = (a0, Some m0)"
    and c: "2 \<le> c"
    and xx: "cf x x \<noteq> 0" and yy: "cf y y \<noteq> 0"
    and yx: "\<not> (hf y = hf x \<and> cf y x \<noteq> 0)"
    and home: "unat (hf y) mod c = unat (hf x) mod c"
  shows "\<exists>m1 m2 m3.
      hashmap_insert (Suc d) a0 m0 x v1 = Some (a0, True, m1) \<and>
      hashmap_remove m1 x = Some (True, m2) \<and>
      status (entries m2 ! (unat (hf x) mod c)) = TOMBSTONE \<and>
      hashmap_insert (Suc d) a0 m2 y v2 = Some (a0, True, m3) \<and>
      key (entries m3 ! (unat (hf x) mod c)) = y \<and>
      hashmap_get m3 x = Some None \<and> hashmap_get m3 y = Some (Some v2) \<and>
      (\<forall>m k h i. status (entries m ! i) = TOMBSTONE \<longrightarrow>
         get_loop (m :: ('k, 'v) hashmap_t) k h i = get_loop m k h ((i + 1) mod capacity m)) \<and>
      (\<forall>m k h i. status (entries m ! i) = FLUENT_LIBC_HASHMAP_EMPTY \<longrightarrow>
         get_loop (m :: ('k, 'v) hashmap_t) k h i = Some None)"
proof -
  let ?i = "unat (hf x) mod c"
  let ?ex = "\<lparr>key = x, value' = v1, status = OCCUPIED, hash = hf x\<rparr>"
  let ?ey = "\<lparr>key = y, value' = v2, status = OCCUPIED, hash = hf y\<rparr>"
  let ?z = "replicate c (zero_entry :: ('k, 'v) hash_entry_t)"
  define m1 where "m1 = m0\<lparr>entries := ?z[?i := ?ex], count := 1\<rparr>"
  define m2 where "m2 = tombstoned m1 ?i"
  define m3 where "m3 = m2\<lparr>entries := (entries m2)[?i := ?ey], count := 1\<rparr>"
  note fresh = hashmap_new_Some [OF new]
  have i: "?i < c" using c by simp
  have s1: "hashmap_insert (Suc d) a0 m0 x v1 = Some (a0, True, m1)"
    using c i by (simp add: fresh over_load_def insert_loop_free m1_def Let_def)
  have mt: "matches m1 x (hf x) ?i"
    using i xx by (simp add: m1_def fresh matches_def)
  have hc: "hash_fn m1 = hf" "capacity m1 = c" by (simp_all add: m1_def fresh)
  have s2: "hashmap_remove m1 x = Some (True, m2)"
    using c mt hc by (simp add: hashmap_remove_def remove_loop_match m2_def Let_def)
  have e2: "entries m2 = ?z[?i := ?ex\<lparr>key := 0, status := TOMBSTONE\<rparr>]"
    "count m2 = 0" "capacity m2 = c" "hash_fn m2 = hf" "cmp_fn m2 = cf"
    using i by (simp_all add: m2_def tombstoned_def m1_def fresh)
  have t2: "status (entries m2 ! ?i) = TOMBSTONE" using i by (simp add: e2)
  have s3: "hashmap_insert (Suc d) a0 m2 y v2 = Some (a0, True, m3)"
    using c i t2 home by (simp add: over_load_def e2(2-5) insert_loop_free m3_def Let_def)
  have e3: "entries m3 = ?z[?i := ?ey]" "capacity m3 = c" "hash_fn m3 = hf" "cmp_fn m3 = cf"
    by (simp_all add: m3_def e2)
  have k3: "key (entries m3 ! ?i) = y" using i by (simp add: e3)
  have nx: "Suc ?i mod c < c" "Suc ?i mod c \<noteq> ?i"
    using c i by (simp_all add: Suc_mod_neq)
  have "\<not> matches m3 x (hf x) ?i" using i yx by (simp add: matches_def e3)
  moreover have "status (entries m3 ! ?i) \<noteq> FLUENT_LIBC_HASHMAP_EMPTY" using i by (simp add: e3)
  moreover have "status (entries m3 ! (Suc ?i mod c)) = FLUENT_LIBC_HASHMAP_EMPTY"
    using nx by (simp add: e3)
  ultimately have "get_loop m3 x (hf x) ?i = Some None"
    by (simp add: get_loop_skip get_loop_empty e3)
  then have g1: "hashmap_get m3 x = Some None"
    using c by (simp add: hashmap_get_def e3)
  have "matches m3 y (hf y) ?i" using i yy by (simp add: matches_def e3)
  then have "get_loop m3 y (hf y) ?i = Some (Some v2)"
    using i by (simp add: get_loop_match e3)
  then have g2: "hashmap_get m3 y = Some (Some v2)"
    using c home by (simp add: hashmap_get_def e3)
  have st: "\<forall>m k h i. status (entries m ! i) = TOMBSTONE \<longrightarrow>
         get_loop (m :: ('k, 'v) hashmap_t) k h i = get_loop m k h ((i + 1) mod capacity m)"
    by (simp add: get_loop_skip matches_def)
  have se: "\<forall>m k h i. status (entries m ! i) = FLUENT_LIBC_HASHMAP_EMPTY \<longrightarrow>
         get_loop (m :: ('k, 'v) hashmap_t) k h i = Some None"
    by (simp add: get_loop_empty)
  from s1 s2 t2 s3 k3 g1 g2 have "\<exists>m1 m2 m3.
      hashmap_insert (Suc d) a0 m0 x v1 = Some (a0, True, m1) \<and>
      hashmap_remove m1 x = Some (True, m2) \<and>
      status (entries m2 ! (unat (hf x) mod c)) = TOMBSTONE \<and>
      hashmap_insert (Suc d) a0 m2 y v2 = Some (a0, True, m3) \<and>
      key (entries m3 ! (unat (hf x) mod c)) = y \<and>
      hashmap_get m3 x = Some None \<and> hashmap_get m3 y = Some (Some v2)" by blast
  with st se show ?thesis by simp
qed



theorem tombstone_scenario_witness:
  "\<exists>m1 m2 m3.
      hashmap_insert (Suc 0) [] (demo_table 4 2) 1 1 = Some ([], True, m1) \<and>
      hashmap_remove m1 1 = Some (True, m2) \<and>
      status (entries m2 ! 3) = TOMBSTONE \<and>
      hashmap_insert (Suc 0) [] m2 3 2 = Some ([], True, m3) \<and>
      key (entries m3 ! 3) = 3 \<and>
      hashmap_get m3 1 = Some None \<and> hashmap_get m3 3 = Some (Some 2)"
proof -
  have new: "hashmap_new [] 4 2 hash_int cmp_uint32 = ([], Some (demo_table 4 2))"
    by (simp add: hashmap_new_def hashmap_init_def demo_table_def)
  have c: "(2::nat) \<le> 4" by simp
  have xx: "cmp_uint32 1 1 \<noteq> 0" and yy: "cmp_uint32 3 3 \<noteq> 0"
    by (simp_all add: cmp_uint32_def)
  have yx: "\<not> (hash_int 3 = hash_int 1 \<and> cmp_uint32 3 1 \<noteq> 0)"
    by (simp add: cmp_uint32_def)
  have home: "unat (hash_int 3) mod 4 = unat (hash_int 1) mod 4"
    by (simp add: hash_int_values)
  have h: "unat (hash_int 1) mod 4 = 3" by (simp add: hash_int_values)
  from tombstone_scenario [OF new c xx yy yx home, of 0 1 2] show ?thesis
    unfolding h by blast
qed

text \<open>
  C8: for every table (whose capacity is the length of its slot array and whose count is
  the number of its occupied slots), the iterator of \<open>iter_begin\<close>, driven by
  \<open>iter_next\<close> until it returns \<open>NULL\<close>, yields exactly \<open>count\<close> slots, each of them
  occupied, with no slot twice and no occupied slot left out, whatever empty slots and
  tombstones lie between them; the drive ends, and \<open>iter_next\<close> then returns \<open>NULL\<close>
  again.
\<close>

theorem iterator_visits_occupied:
  assumes wf: "capacity m = length (entries m)"
    and cnt: "count m = length (occupied (entries m))"
  shows "\<exists>slots final. iter_collect (hashmap_iter_begin m) = Some (slots, final) \<and>
     length slots = count m \<and> distinct slots \<and>
     (\<forall>i\<in>set slots. i < capacity m \<and> status (entries m ! i) = OCCUPIED) \<and>
     (\<forall>i<capacity m. status (entries m ! i) = OCCUPIED \<longrightarrow> i \<in> set slots) \<and>
     fst (hashmap_iter_next final) = None"
proof -
  let ?slots = "filter (\<lambda>j. status (entries m ! j) = OCCUPIED) [0..<capacity m]"
  from iter_collect_returns [of "hashmap_iter_begin m"] obtain final where
    f: "iter_collect (hashmap_iter_begin m) = Some (?slots, final)"
      "fst (hashmap_iter_next final) = None"
    by (auto simp: hashmap_iter_begin_def)
  have "length (map (\<lambda>j. entries m ! j) ?slots) = length (occupied (entries m))"
    using occupied_indices [of "entries m"] wf by simp
  then have "length ?slots = count m" using cnt by simp
  moreover have "distinct ?slots" by simp
  moreover have "\<forall>i\<in>set ?slots. i < capacity m \<and> status (entries m ! i) = OCCUPIED" by simp
  moreover have "\<forall>i<capacity m. status (entries m ! i) = OCCUPIED \<longrightarrow> i \<in> set ?slots" by simp
  ultimately show ?thesis using f by blast
qed

theorem iterator_visits_occupied_witness:
  "\<exists>final. iter_collect (hashmap_iter_begin demo_twice_removed) = Some ([0], final) \<and>
     count demo_twice_removed = 1 \<and> fst (hashmap_iter_next final) = None"
proof -
  have wf: "capacity demo_twice_removed = length (entries demo_twice_removed)"
    by (simp add: demo_twice_removed_def)
  have cnt: "count demo_twice_removed = length (occupied (entries demo_twice_removed))"
    by (simp add: demo_twice_removed_def demo_entry_def occupied_def)
  from iterator_visits_occupied [OF wf cnt] obtain slots final where
    r: "iter_collect (hashmap_iter_begin demo_twice_removed) = Some (slots, final)"
      "length slots = count demo_twice_removed" "distinct slots"
      "\<forall>i\<in>set slots. i < capacity demo_twice_removed \<and>
          status (entries demo_twice_removed ! i) = OCCUPIED"
      "fst (hashmap_iter_next final) = None" by blast
  have c: "count demo_twice_removed = 1" by (simp add: demo_twice_removed_def)
  with r(2) obtain i where s: "slots = [i]" by (cases slots) auto
  with r(4) have "i < 4" "status (entries demo_twice_removed ! i) = OCCUPIED"
    by (simp_all add: demo_twice_removed_def)
  then have "i = 0"
    by (auto simp: demo_twice_removed_def demo_entry_def eval_nat_numeral less_Suc_eq)
  with s r(1,5) c show ?thesis by simp
qed

text \<open>
  C10: for every table (whose capacity is the length of its slot array) that has at least
  one slot that is empty or a tombstone, in particular whenever its count is the number
  of its occupied slots and is less than its capacity, the placement loop of \<open>insert\<close>,
  started at any slot with any distance and any occupied entry to carry, terminates: it
  returns a table in which the carried entry sits in a slot and whose count is one more.
\<close>

theorem insert_loop_terminates:
  assumes wf: "capacity m = length (entries m)" and i: "i < capacity m"
    and e: "status e = OCCUPIED"
    and free: "(\<exists>j<capacity m. status (entries m ! j) \<noteq> OCCUPIED) \<or>
               (count m = length (occupied (entries m)) \<and> count m < capacity m)"
  shows "\<exists>m'. insert_loop m i d e = Some m' \<and> e \<in> set (entries m') \<and>
               count m' = count m + 1"
proof -
  have "\<exists>j<capacity m. status (entries m ! j) \<noteq> OCCUPIED"
  proof (rule ccontr)
    assume n: "\<not> (\<exists>j<capacity m. status (entries m ! j) \<noteq> OCCUPIED)"
    then have "\<forall>x\<in>set (entries m). status x = OCCUPIED"
      using wf by (auto simp: in_set_conv_nth)
    then have "occupied (entries m) = entries m" by (simp add: occupied_def)
    with free n wf show False by auto
  qed
  then obtain j where j: "j < capacity m" "status (entries m ! j) \<noteq> OCCUPIED" by blast
  have "(i + (j + capacity m - i) mod capacity m) mod capacity m = j"
    using i j(1) by (rule cyclic_reach)
  with j(2) have "status (entries m ! ((i + (j + capacity m - i) mod capacity m) mod capacity m))
      \<noteq> OCCUPIED" by simp
  from insert_loop_returns [OF wf i this] obtain m' where
    run: "insert_loop m i d e = Some m'" by blast
  from insert_loop_occupied [OF run wf i e] have "e \<in># mset (occupied (entries m'))" by simp
  then have "e \<in> set (entries m')" by (simp add: occupied_def)
  with run insert_loop_fields [OF run] show ?thesis by simp
qed

theorem insert_loop_terminates_witness:
  "\<exists>m'. insert_loop demo_three 3 0 (demo_entry 5 50) = Some m' \<and>
     demo_entry 5 50 \<in> set (entries m') \<and> count m' = 4"
proof -
  have wf: "capacity demo_three = length (entries demo_three)" by (simp add: demo_three_def)
  have i: "3 < capacity demo_three" by (simp add: demo_three_def)
  have e: "status (demo_entry 5 50) = OCCUPIED" by (simp add: demo_entry_def)
  have "count demo_three = length (occupied (entries demo_three)) \<and>
        count demo_three < capacity demo_three"
    by (simp add: demo_three_def demo_entry_def occupied_def)
  then have free: "(\<exists>j<capacity demo_three. status (entries demo_three ! j) \<noteq> OCCUPIED) \<or>
      (count demo_three = length (occupied (entries demo_three)) \<and>
       count demo_three < capacity demo_three)" by blast
  from insert_loop_terminates [OF wf i e free, of 0] show ?thesis
    by (simp add: demo_three_def)
qed

end
